theory Spec2Isabelle
  imports Main "HOL-Library.AList" "HOL-Library.Word"
begin

section \<open>The multi-tier cache of go-cache\<close>

text \<open>
  A shallow embedding of \<^verbatim>\<open>internal/cache\<close>: the three stores (memory, disk, remote), the
  least-recently-used policy and the coordinator \<^verbatim>\<open>MultiTierCache\<close>. Every Go method
  becomes a function that takes the receiver's state and returns the result together with
  the new state; a Go \<^verbatim>\<open>error\<close> result is an \<open>error option\<close> (\<open>None\<close> is \<^verbatim>\<open>nil\<close>)
  and a \<^verbatim>\<open>(value, error)\<close> result is a sum with the error on the left.

  What lies outside the repository is a parameter of the state:
  \<^item> the clock: \<^verbatim>\<open>time.Now()\<close> reads the next value of an arbitrary sequence of
    instants (no monotonicity is assumed);
  \<^item> \<^verbatim>\<open>encoding/gob\<close>: a file holds the entry that decoding it gives back, and its length
    in bytes is given by an arbitrary function of the entry;
  \<^item> the file system: the scratch directory is a flat table from file names to files
    (keys are taken to be plain file names), which may have lost its write permission;
  \<^item> the Redis server behind a live remote store: a table of values, which may be
    unreachable, and the two figures it reports about its memory.

  Go's \<^verbatim>\<open>int\<close> is modelled by \<open>int\<close>: sizes are lengths of byte slices held in memory and
  their sums stay far below \<open>2^63\<close>. The locks are left out: the model is sequential.
  A Go map is an association list; its iteration order, which Go leaves unspecified, is
  the order of the list.
\<close>

subsection \<open>Entries and errors\<close>

type_synonym bytes = string

type_synonym time = int

text \<open>The zero value of \<^verbatim>\<open>time.Time\<close>.\<close>

definition zero_time :: time where
  "zero_time = 0"

record CacheEntry =
  Key :: string
  Value :: bytes
  Size :: int
  LastAccess :: time
  Frequency :: int

text \<open>
  The error values of the package. \<open>ErrInsufficientCapacity\<close> is the package variable of
  \<^verbatim>\<open>memory_store.go\<close>; \<open>ErrNew msg\<close> is a value made on the spot by \<^verbatim>\<open>errors.New(msg)\<close>,
  which \<^verbatim>\<open>errors.Is\<close> never identifies with the package variable, whatever its message;
  \<open>ErrOS\<close> is an error of package \<^verbatim>\<open>os\<close>; \<open>RedisNil\<close> is \<^verbatim>\<open>redis.Nil\<close> and \<open>ErrRedis\<close> any
  other error of the Redis client.
\<close>

datatype error =
    ErrInsufficientCapacity
  | ErrNew string
  | ErrOS string
  | RedisNil
  | ErrRedis string

definition errors_Is :: "error \<Rightarrow> error \<Rightarrow> bool" where
  "errors_Is err target = (err = target)"

subsection \<open>The memory store\<close>

record MemoryStore =
  m_items :: "(string \<times> CacheEntry) list"
  m_capacity :: int
  m_usage :: int

definition NewMemoryStore :: "int \<Rightarrow> MemoryStore" where
  "NewMemoryStore capacity = \<lparr>m_items = [], m_capacity = capacity, m_usage = 0\<rparr>"

definition MemoryStore_Get :: "MemoryStore \<Rightarrow> string \<Rightarrow> error + CacheEntry" where
  "MemoryStore_Get s key =
     (case map_of (m_items s) key of
        Some entry \<Rightarrow> Inr entry
      | None \<Rightarrow> Inl (ErrNew ''key not found''))"

definition MemoryStore_Set :: "MemoryStore \<Rightarrow> CacheEntry \<Rightarrow> error option \<times> MemoryStore" where
  "MemoryStore_Set s entry =
     (let newUsage = m_usage s + Size entry;
          newUsage = (case map_of (m_items s) (Key entry) of
                        Some existing \<Rightarrow> newUsage - Size existing
                      | None \<Rightarrow> newUsage)
      in if newUsage > m_capacity s then (Some ErrInsufficientCapacity, s)
         else (None, s\<lparr>m_items := AList.update (Key entry) entry (m_items s),
                        m_usage := newUsage\<rparr>))"

definition MemoryStore_Delete :: "MemoryStore \<Rightarrow> string \<Rightarrow> error option \<times> MemoryStore" where
  "MemoryStore_Delete s key =
     (case map_of (m_items s) key of
        Some entry \<Rightarrow>
          (None, s\<lparr>m_usage := m_usage s - Size entry,
                    m_items := AList.delete key (m_items s)\<rparr>)
      | None \<Rightarrow> (None, s))"

definition MemoryStore_Clear :: "MemoryStore \<Rightarrow> error option \<times> MemoryStore" where
  "MemoryStore_Clear s = (None, s\<lparr>m_items := [], m_usage := 0\<rparr>)"

definition MemoryStore_GetCapacity :: "MemoryStore \<Rightarrow> int" where
  "MemoryStore_GetCapacity s = m_capacity s"

definition MemoryStore_GetUsage :: "MemoryStore \<Rightarrow> int" where
  "MemoryStore_GetUsage s = m_usage s"

definition MemoryStore_Keys :: "MemoryStore \<Rightarrow> string list" where
  "MemoryStore_Keys s = map fst (m_items s)"

definition MemoryStore_GetAll :: "MemoryStore \<Rightarrow> CacheEntry list" where
  "MemoryStore_GetAll s = map snd (m_items s)"

subsection \<open>The disk store\<close>

text \<open>
  A file of the scratch directory: the entry its gob encoding decodes to, and the length
  of the file in bytes, which is what \<^verbatim>\<open>os.Stat\<close> reports.
\<close>

record disk_file =
  f_entry :: CacheEntry
  f_size :: nat

text \<open>
  \<open>d_files\<close> is the scratch directory \<^verbatim>\<open>dir\<close>. \<open>d_readonly\<close> tells that the directory has lost
  its write permission: \<^verbatim>\<open>os.Create\<close>, \<^verbatim>\<open>os.Remove\<close> and \<^verbatim>\<open>os.RemoveAll\<close> fail then,
  while \<^verbatim>\<open>os.Open\<close> and \<^verbatim>\<open>os.Stat\<close> still succeed. \<open>d_gob_len\<close> is the length of the gob
  encoding of an entry.
\<close>

record DiskStore =
  d_files :: "(string \<times> disk_file) list"
  d_capacity :: int
  d_usage :: int
  d_readonly :: bool
  d_gob_len :: "CacheEntry \<Rightarrow> nat"

definition NewDiskStore :: "int \<Rightarrow> (CacheEntry \<Rightarrow> nat) \<Rightarrow> DiskStore" where
  "NewDiskStore capacity gob_len =
     \<lparr>d_files = [], d_capacity = capacity, d_usage = 0, d_readonly = False,
      d_gob_len = gob_len\<rparr>"

definition os_Open :: "DiskStore \<Rightarrow> string \<Rightarrow> error + disk_file" where
  "os_Open s name =
     (case map_of (d_files s) name of
        Some f \<Rightarrow> Inr f
      | None \<Rightarrow> Inl (ErrOS ''no such file or directory''))"

definition DiskStore_readEntry :: "DiskStore \<Rightarrow> string \<Rightarrow> error + CacheEntry" where
  "DiskStore_readEntry s path =
     (case os_Open s path of
        Inl err \<Rightarrow> Inl err
      | Inr f \<Rightarrow> Inr (f_entry f))"

definition DiskStore_Get :: "DiskStore \<Rightarrow> string \<Rightarrow> error + CacheEntry" where
  "DiskStore_Get s key =
     (case os_Open s key of
        Inl err \<Rightarrow> Inl err
      | Inr f \<Rightarrow> Inr (f_entry f))"

definition DiskStore_Set :: "DiskStore \<Rightarrow> CacheEntry \<Rightarrow> error option \<times> DiskStore" where
  "DiskStore_Set s entry =
     (if d_usage s + Size entry > d_capacity s
      then (Some (ErrNew ''insufficient capacity''), s)
      else if d_readonly s then (Some (ErrOS ''permission denied''), s)
      else (None,
            s\<lparr>d_files :=
                 AList.update (Key entry)
                   \<lparr>f_entry = entry, f_size = d_gob_len s entry\<rparr> (d_files s),
               d_usage := d_usage s + Size entry\<rparr>))"

definition DiskStore_Delete :: "DiskStore \<Rightarrow> string \<Rightarrow> error option \<times> DiskStore" where
  "DiskStore_Delete s key =
     (case map_of (d_files s) key of
        Some info \<Rightarrow>
          (let s' = s\<lparr>d_usage := d_usage s - int (f_size info)\<rparr>
           in if d_readonly s then (Some (ErrOS ''permission denied''), s')
              else (None, s'\<lparr>d_files := AList.delete key (d_files s)\<rparr>))
      | None \<Rightarrow> (None, s))"

definition DiskStore_Clear :: "DiskStore \<Rightarrow> error option \<times> DiskStore" where
  "DiskStore_Clear s =
     (if d_readonly s then (Some (ErrOS ''permission denied''), s)
      else (None, s\<lparr>d_files := [], d_usage := 0\<rparr>))"

definition DiskStore_GetCapacity :: "DiskStore \<Rightarrow> int" where
  "DiskStore_GetCapacity s = d_capacity s"

definition DiskStore_GetUsage :: "DiskStore \<Rightarrow> int" where
  "DiskStore_GetUsage s = d_usage s"

definition DiskStore_Keys :: "DiskStore \<Rightarrow> string list" where
  "DiskStore_Keys s = map fst (d_files s)"

fun readEntries :: "DiskStore \<Rightarrow> string list \<Rightarrow> CacheEntry list" where
  "readEntries s [] = []"
| "readEntries s (name # names) =
     (case DiskStore_readEntry s name of
        Inr entry \<Rightarrow> entry # readEntries s names
      | Inl err \<Rightarrow> readEntries s names)"

definition DiskStore_GetAll :: "DiskStore \<Rightarrow> CacheEntry list" where
  "DiskStore_GetAll s = readEntries s (map fst (d_files s))"

subsection \<open>The remote store\<close>

text \<open>
  The Redis server as the client sees it. \<open>r_fault = Some msg\<close>: the server cannot be
  reached and every command fails with \<open>ErrRedis msg\<close>. \<open>r_maxmemory\<close> is the number the
  \<^verbatim>\<open>maxmemory\<close> configuration parses to (\<open>None\<close> when it is missing or malformed) and
  \<open>r_used_memory\<close> the number of the \<^verbatim>\<open>used_memory\<close> line of \<^verbatim>\<open>INFO memory\<close> (\<open>None\<close> when
  the line is missing, in which case the code's \<^verbatim>\<open>usage\<close> stays 0).
\<close>

record redis =
  r_db :: "(string \<times> bytes) list"
  r_fault :: "string option"
  r_maxmemory :: "int option"
  r_used_memory :: "int option"

record RemoteStore =
  simulate :: bool
  client :: redis
  simulateMap :: "(string \<times> bytes) list"

text \<open>\<^verbatim>\<open>StoreMetrics\<close> without its floating-point field \<^verbatim>\<open>UsagePercent\<close>.\<close>

record StoreMetrics =
  Capacity :: int
  Usage :: int

definition no_redis :: redis where
  "no_redis = \<lparr>r_db = [], r_fault = Some ''no client'', r_maxmemory = None,
               r_used_memory = None\<rparr>"

text \<open>
  \<open>env_simulate\<close> is the value of the environment variable \<^verbatim>\<open>SIMULATE_REMOTE_STORE\<close>
  (\<open>None\<close> when unset); \<open>server\<close> is the server at the address given.
\<close>

definition NewRemoteStore :: "string option \<Rightarrow> redis \<Rightarrow> error + RemoteStore" where
  "NewRemoteStore env_simulate server =
     (if env_simulate = Some ''true''
      then Inr \<lparr>simulate = True, client = no_redis, simulateMap = []\<rparr>
      else (case r_fault server of
              Some msg \<Rightarrow> Inl (ErrRedis msg)
            | None \<Rightarrow> Inr \<lparr>simulate = False, client = server, simulateMap = []\<rparr>))"

definition RemoteStore_Get :: "RemoteStore \<Rightarrow> string \<Rightarrow> error + CacheEntry" where
  "RemoteStore_Get s key =
     (if simulate s then
        (case map_of (simulateMap s) key of
           Some val \<Rightarrow>
             Inr \<lparr>Key = key, Value = val, Size = 0, LastAccess = zero_time, Frequency = 0\<rparr>
         | None \<Rightarrow> Inl RedisNil)
      else
        (case r_fault (client s) of
           Some msg \<Rightarrow> Inl (ErrRedis msg)
         | None \<Rightarrow>
             (case map_of (r_db (client s)) key of
                None \<Rightarrow> Inl RedisNil
              | Some val \<Rightarrow>
                  Inr \<lparr>Key = key, Value = val, Size = 0, LastAccess = zero_time,
                       Frequency = 0\<rparr>)))"

definition RemoteStore_Set :: "RemoteStore \<Rightarrow> CacheEntry \<Rightarrow> error option \<times> RemoteStore" where
  "RemoteStore_Set s entry =
     (if simulate s then
        (None, s\<lparr>simulateMap := AList.update (Key entry) (Value entry) (simulateMap s)\<rparr>)
      else
        (case r_fault (client s) of
           Some msg \<Rightarrow> (Some (ErrRedis msg), s)
         | None \<Rightarrow>
             (None,
              s\<lparr>client := (client s)\<lparr>r_db :=
                   AList.update (Key entry) (Value entry) (r_db (client s))\<rparr>\<rparr>)))"

definition RemoteStore_Delete :: "RemoteStore \<Rightarrow> string \<Rightarrow> error option \<times> RemoteStore" where
  "RemoteStore_Delete s key =
     (if simulate s then
        (None, s\<lparr>simulateMap := AList.delete key (simulateMap s)\<rparr>)
      else
        (case r_fault (client s) of
           Some msg \<Rightarrow> (Some (ErrRedis msg), s)
         | None \<Rightarrow>
             (None, s\<lparr>client := (client s)\<lparr>r_db := AList.delete key (r_db (client s))\<rparr>\<rparr>)))"

definition RemoteStore_Clear :: "RemoteStore \<Rightarrow> error option \<times> RemoteStore" where
  "RemoteStore_Clear s =
     (if simulate s then (None, s\<lparr>simulateMap := []\<rparr>)
      else
        (case r_fault (client s) of
           Some msg \<Rightarrow> (Some (ErrRedis msg), s)
         | None \<Rightarrow> (None, s\<lparr>client := (client s)\<lparr>r_db := []\<rparr>\<rparr>)))"

definition RemoteStore_Keys :: "RemoteStore \<Rightarrow> string list" where
  "RemoteStore_Keys s =
     (if simulate s then map fst (simulateMap s)
      else (case r_fault (client s) of
              Some msg \<Rightarrow> []
            | None \<Rightarrow> map fst (r_db (client s))))"

definition remote_entry :: "string \<times> bytes \<Rightarrow> CacheEntry" where
  "remote_entry kv =
     \<lparr>Key = fst kv, Value = snd kv, Size = 0, LastAccess = zero_time, Frequency = 0\<rparr>"

definition RemoteStore_GetAll :: "RemoteStore \<Rightarrow> CacheEntry list" where
  "RemoteStore_GetAll s =
     (if simulate s then map remote_entry (simulateMap s)
      else (case r_fault (client s) of
              Some msg \<Rightarrow> []
            | None \<Rightarrow> map remote_entry (r_db (client s))))"

definition RemoteStore_GetMetrics :: "RemoteStore \<Rightarrow> error + StoreMetrics" where
  "RemoteStore_GetMetrics s =
     (if simulate s then
        Inr \<lparr>Capacity = 1024 * 1024 * 100,
             Usage = sum_list (map (\<lambda>kv. int (length (snd kv))) (simulateMap s))\<rparr>
      else
        (case r_fault (client s) of
           Some msg \<Rightarrow> Inl (ErrRedis msg)
         | None \<Rightarrow>
             (case r_maxmemory (client s) of
                None \<Rightarrow> Inl (ErrNew ''failed to get maxmemory'')
              | Some capacity \<Rightarrow>
                  (let usage = (case r_used_memory (client s) of Some u \<Rightarrow> u | None \<Rightarrow> 0)
                   in if usage = 0
                      then Inl (ErrNew ''failed to find used_memory in Redis info'')
                      else Inr \<lparr>Capacity = capacity, Usage = usage\<rparr>))))"

definition RemoteStore_GetCapacity :: "RemoteStore \<Rightarrow> int" where
  "RemoteStore_GetCapacity s =
     (case RemoteStore_GetMetrics s of
        Inl err \<Rightarrow> - 1
      | Inr metrics \<Rightarrow> Capacity metrics)"

definition RemoteStore_GetUsage :: "RemoteStore \<Rightarrow> int" where
  "RemoteStore_GetUsage s =
     (case RemoteStore_GetMetrics s of
        Inl err \<Rightarrow> 0
      | Inr metrics \<Rightarrow> Usage metrics)"

subsection \<open>The least-recently-used policy\<close>

text \<open>
  \<^verbatim>\<open>Choose\<close> reads the clock once, for the initial \<^verbatim>\<open>oldestAccess\<close>; the reading is the
  argument \<open>now\<close>. \<open>Choose_loop\<close> is the \<^verbatim>\<open>for\<close> loop with its two variables.
\<close>

fun Choose_loop :: "CacheEntry list \<Rightarrow> time \<Rightarrow> string \<Rightarrow> string" where
  "Choose_loop [] oldestAccess oldestKey = oldestKey"
| "Choose_loop (entry # entries) oldestAccess oldestKey =
     (if LastAccess entry < oldestAccess
      then Choose_loop entries (LastAccess entry) (Key entry)
      else Choose_loop entries oldestAccess oldestKey)"

definition LRUPolicy_Choose :: "time \<Rightarrow> CacheEntry list \<Rightarrow> string" where
  "LRUPolicy_Choose now entries =
     (if length entries = 0 then '''' else Choose_loop entries now '''')"

subsection \<open>The coordinator\<close>

text \<open>
  \<open>clock\<close> and \<open>ticks\<close> are the clock: the \<open>n\<close>-th call of \<^verbatim>\<open>time.Now()\<close> returns \<open>clock n\<close>.
  The policy is \<open>LRUPolicy\<close>, the only one of the repository.
\<close>

record MultiTierCache =
  memoryStore :: MemoryStore
  diskStore :: DiskStore
  remoteStore :: RemoteStore
  statsHits :: "64 word"
  statsMisses :: "64 word"
  clock :: "nat \<Rightarrow> time"
  ticks :: nat

definition time_Now :: "MultiTierCache \<Rightarrow> time \<times> MultiTierCache" where
  "time_Now c = (clock c (ticks c), c\<lparr>ticks := Suc (ticks c)\<rparr>)"

definition NewMultiTierCache ::
  "int \<Rightarrow> int \<Rightarrow> string option \<Rightarrow> redis \<Rightarrow> (CacheEntry \<Rightarrow> nat) \<Rightarrow> (nat \<Rightarrow> time)
   \<Rightarrow> error + MultiTierCache" where
  "NewMultiTierCache memCap diskCap env_simulate server gob_len clk =
     (case NewRemoteStore env_simulate server of
        Inl err \<Rightarrow> Inl err
      | Inr remote \<Rightarrow>
          Inr \<lparr>memoryStore = NewMemoryStore memCap,
               diskStore = NewDiskStore diskCap gob_len,
               remoteStore = remote,
               statsHits = 0, statsMisses = 0, clock = clk, ticks = 0\<rparr>)"

text \<open>The \<^verbatim>\<open>Store\<close> interface: a method call on one of the three stores of the cache.\<close>

datatype tier = MemoryTier | DiskTier | RemoteTier

fun store_Get :: "tier \<Rightarrow> string \<Rightarrow> MultiTierCache \<Rightarrow> error + CacheEntry" where
  "store_Get MemoryTier key c = MemoryStore_Get (memoryStore c) key"
| "store_Get DiskTier key c = DiskStore_Get (diskStore c) key"
| "store_Get RemoteTier key c = RemoteStore_Get (remoteStore c) key"

fun store_Set :: "tier \<Rightarrow> CacheEntry \<Rightarrow> MultiTierCache \<Rightarrow> error option \<times> MultiTierCache" where
  "store_Set MemoryTier entry c =
     (case MemoryStore_Set (memoryStore c) entry of (err, s) \<Rightarrow> (err, c\<lparr>memoryStore := s\<rparr>))"
| "store_Set DiskTier entry c =
     (case DiskStore_Set (diskStore c) entry of (err, s) \<Rightarrow> (err, c\<lparr>diskStore := s\<rparr>))"
| "store_Set RemoteTier entry c =
     (case RemoteStore_Set (remoteStore c) entry of (err, s) \<Rightarrow> (err, c\<lparr>remoteStore := s\<rparr>))"

fun store_Delete :: "tier \<Rightarrow> string \<Rightarrow> MultiTierCache \<Rightarrow> error option \<times> MultiTierCache" where
  "store_Delete MemoryTier key c =
     (case MemoryStore_Delete (memoryStore c) key of (err, s) \<Rightarrow> (err, c\<lparr>memoryStore := s\<rparr>))"
| "store_Delete DiskTier key c =
     (case DiskStore_Delete (diskStore c) key of (err, s) \<Rightarrow> (err, c\<lparr>diskStore := s\<rparr>))"
| "store_Delete RemoteTier key c =
     (case RemoteStore_Delete (remoteStore c) key of (err, s) \<Rightarrow> (err, c\<lparr>remoteStore := s\<rparr>))"

fun store_Clear :: "tier \<Rightarrow> MultiTierCache \<Rightarrow> error option \<times> MultiTierCache" where
  "store_Clear MemoryTier c =
     (case MemoryStore_Clear (memoryStore c) of (err, s) \<Rightarrow> (err, c\<lparr>memoryStore := s\<rparr>))"
| "store_Clear DiskTier c =
     (case DiskStore_Clear (diskStore c) of (err, s) \<Rightarrow> (err, c\<lparr>diskStore := s\<rparr>))"
| "store_Clear RemoteTier c =
     (case RemoteStore_Clear (remoteStore c) of (err, s) \<Rightarrow> (err, c\<lparr>remoteStore := s\<rparr>))"

fun store_GetCapacity :: "tier \<Rightarrow> MultiTierCache \<Rightarrow> int" where
  "store_GetCapacity MemoryTier c = MemoryStore_GetCapacity (memoryStore c)"
| "store_GetCapacity DiskTier c = DiskStore_GetCapacity (diskStore c)"
| "store_GetCapacity RemoteTier c = RemoteStore_GetCapacity (remoteStore c)"

fun store_GetUsage :: "tier \<Rightarrow> MultiTierCache \<Rightarrow> int" where
  "store_GetUsage MemoryTier c = MemoryStore_GetUsage (memoryStore c)"
| "store_GetUsage DiskTier c = DiskStore_GetUsage (diskStore c)"
| "store_GetUsage RemoteTier c = RemoteStore_GetUsage (remoteStore c)"

fun store_GetAll :: "tier \<Rightarrow> MultiTierCache \<Rightarrow> CacheEntry list" where
  "store_GetAll MemoryTier c = MemoryStore_GetAll (memoryStore c)"
| "store_GetAll DiskTier c = DiskStore_GetAll (diskStore c)"
| "store_GetAll RemoteTier c = RemoteStore_GetAll (remoteStore c)"

definition getNextTier :: "CacheEntry \<Rightarrow> MultiTierCache \<Rightarrow> tier option" where
  "getNextTier entry c =
     (if Size entry \<le> store_GetCapacity MemoryTier c then Some DiskTier
      else if Size entry \<le> store_GetCapacity DiskTier c then Some RemoteTier
      else None)"

definition promoteEvictedEntry :: "CacheEntry \<Rightarrow> MultiTierCache \<Rightarrow> MultiTierCache" where
  "promoteEvictedEntry entry c =
     (case getNextTier entry c of
        Some store \<Rightarrow> snd (store_Set store entry c)
      | None \<Rightarrow> c)"

text \<open>
  One turn of the loop of \<^verbatim>\<open>evict\<close>, after its condition: \<open>Inl\<close> is \<^verbatim>\<open>return false\<close>,
  \<open>Inr\<close> goes on to the next turn.
\<close>

definition evict_body :: "tier \<Rightarrow> MultiTierCache \<Rightarrow> MultiTierCache + MultiTierCache" where
  "evict_body store c =
     (let entries = store_GetAll store c in
      if length entries = 0 then Inl c
      else
        (case time_Now c of
           (now, c1) \<Rightarrow>
             (let keyToEvict = LRUPolicy_Choose now entries in
              if keyToEvict = '''' then Inl c1
              else
                (let evictedEntry = store_Get store keyToEvict c1;
                     c2 = snd (store_Delete store keyToEvict c1)
                 in case evictedEntry of
                      Inr entry \<Rightarrow> Inr (promoteEvictedEntry entry c2)
                    | Inl err \<Rightarrow> Inr c2))))"

text \<open>
  The loop of \<^verbatim>\<open>evict\<close> need not end (a policy may keep choosing a key the store does not
  hold), so \<open>evict\<close> is a partial function: \<open>None\<close> is a loop that runs forever.
\<close>

partial_function (option) evict ::
  "tier \<Rightarrow> int \<Rightarrow> MultiTierCache \<Rightarrow> (bool \<times> MultiTierCache) option" where
  "evict store requiredSpace c =
     (if store_GetCapacity store c - store_GetUsage store c < requiredSpace
      then (case evict_body store c of
              Inl c' \<Rightarrow> Some (False, c')
            | Inr c' \<Rightarrow> evict store requiredSpace c')
      else Some (True, c))"

declare evict.simps [code]

definition promoteToMemory :: "CacheEntry \<Rightarrow> MultiTierCache \<Rightarrow> MultiTierCache option" where
  "promoteToMemory entry c =
     (if store_GetUsage MemoryTier c + Size entry > store_GetCapacity MemoryTier c
      then (case evict MemoryTier (Size entry) c of
              None \<Rightarrow> None
            | Some (evicted, c') \<Rightarrow> Some (snd (store_Set MemoryTier entry c')))
      else Some (snd (store_Set MemoryTier entry c)))"

text \<open>
  \<^verbatim>\<open>Get\<close>. A hit in the memory store hands out the pointer the store holds, so the two
  assignments change the stored entry; a hit in a colder store works on a fresh entry.
\<close>

definition touch :: "time \<Rightarrow> CacheEntry \<Rightarrow> CacheEntry" where
  "touch now entry = entry\<lparr>LastAccess := now, Frequency := Frequency entry + 1\<rparr>"

definition cache_Get ::
  "string \<Rightarrow> MultiTierCache \<Rightarrow> ((error + bytes) \<times> MultiTierCache) option" where
  "cache_Get key c =
     (case store_Get MemoryTier key c of
        Inr entry \<Rightarrow>
          (case time_Now (c\<lparr>statsHits := statsHits c + 1\<rparr>) of
             (now, c1) \<Rightarrow>
               Some (Inr (Value entry),
                     c1\<lparr>memoryStore := (memoryStore c1)
                          \<lparr>m_items := AList.update key (touch now entry)
                                         (m_items (memoryStore c1))\<rparr>\<rparr>))
      | Inl err \<Rightarrow>
          (case store_Get DiskTier key c of
             Inr entry \<Rightarrow>
               (case time_Now (c\<lparr>statsHits := statsHits c + 1\<rparr>) of
                  (now, c1) \<Rightarrow>
                    (case promoteToMemory (touch now entry) c1 of
                       None \<Rightarrow> None
                     | Some c2 \<Rightarrow> Some (Inr (Value entry), c2)))
           | Inl err \<Rightarrow>
               (case store_Get RemoteTier key c of
                  Inr entry \<Rightarrow>
                    (case time_Now (c\<lparr>statsHits := statsHits c + 1\<rparr>) of
                       (now, c1) \<Rightarrow>
                         (case promoteToMemory (touch now entry) c1 of
                            None \<Rightarrow> None
                          | Some c2 \<Rightarrow> Some (Inr (Value entry), c2)))
                | Inl err \<Rightarrow>
                    Some (Inl (ErrNew ''key not found''),
                          c\<lparr>statsMisses := statsMisses c + 1\<rparr>))))"

text \<open>
  \<^verbatim>\<open>Set\<close>, in the three parts its comments name: the remote store (line 146), the disk
  store (lines 129 to 143), the memory store (lines 103 to 126).
\<close>

definition Set_remote ::
  "CacheEntry \<Rightarrow> MultiTierCache \<Rightarrow> (error option \<times> MultiTierCache) option" where
  "Set_remote entry c = Some (store_Set RemoteTier entry c)"

definition Set_disk ::
  "CacheEntry \<Rightarrow> MultiTierCache \<Rightarrow> (error option \<times> MultiTierCache) option" where
  "Set_disk entry c =
     (case store_Set DiskTier entry c of
        (None, c1) \<Rightarrow> Some (None, c1)
      | (Some err, c1) \<Rightarrow>
          (if errors_Is err ErrInsufficientCapacity
           then (case evict DiskTier (Size entry) c1 of
                   None \<Rightarrow> None
                 | Some (evicted, c2) \<Rightarrow>
                     (if evicted
                      then (case store_Set DiskTier entry c2 of
                              (None, c3) \<Rightarrow> Some (None, c3)
                            | (Some err', c3) \<Rightarrow> Set_remote entry c3)
                      else Set_remote entry c2))
           else Set_remote entry c1))"

definition cache_Set ::
  "string \<Rightarrow> bytes \<Rightarrow> MultiTierCache \<Rightarrow> (error option \<times> MultiTierCache) option" where
  "cache_Set key val c =
     (case time_Now c of
        (now, c0) \<Rightarrow>
          (let entry = \<lparr>Key = key, Value = val, Size = int (length val), LastAccess = now,
                        Frequency = 1\<rparr>
           in case store_Set MemoryTier entry c0 of
                (None, c1) \<Rightarrow> Some (None, c1)
              | (Some err, c1) \<Rightarrow>
                  (if errors_Is err ErrInsufficientCapacity
                   then (case evict MemoryTier (Size entry) c1 of
                           None \<Rightarrow> None
                         | Some (evicted, c2) \<Rightarrow>
                             (if evicted
                              then (case store_Set MemoryTier entry c2 of
                                      (None, c3) \<Rightarrow> Some (None, c3)
                                    | (Some err', c3) \<Rightarrow> Set_disk entry c3)
                              else Set_disk entry c2))
                   else Set_disk entry c1)))"

definition cache_Delete :: "string \<Rightarrow> MultiTierCache \<Rightarrow> error option \<times> MultiTierCache" where
  "cache_Delete key c =
     (let c1 = snd (store_Delete MemoryTier key c);
          c2 = snd (store_Delete DiskTier key c1)
      in store_Delete RemoteTier key c2)"

definition cache_Clear :: "MultiTierCache \<Rightarrow> error option \<times> MultiTierCache" where
  "cache_Clear c =
     (let c1 = snd (store_Clear MemoryTier c);
          c2 = snd (store_Clear DiskTier c1)
      in store_Clear RemoteTier c2)"

subsection \<open>Sequences of operations, residency, an example environment\<close>

text \<open>
  The four operations of the coordinator a client mixes; \<open>run\<close> applies a sequence of
  them, \<open>None\<close> when one of them never returns.
\<close>

datatype op = OpSet string bytes | OpGet string | OpDelete string | OpClear

fun apply_op :: "op \<Rightarrow> MultiTierCache \<Rightarrow> MultiTierCache option" where
  "apply_op (OpSet key val) c = map_option snd (cache_Set key val c)"
| "apply_op (OpGet key) c = map_option snd (cache_Get key c)"
| "apply_op (OpDelete key) c = Some (snd (cache_Delete key c))"
| "apply_op OpClear c = Some (snd (cache_Clear c))"

fun run :: "op list \<Rightarrow> MultiTierCache \<Rightarrow> MultiTierCache option" where
  "run [] c = Some c"
| "run (x # xs) c = (case apply_op x c of None \<Rightarrow> None | Some c' \<Rightarrow> run xs c')"

text \<open>A key is resident in a tier when the tier's \<^verbatim>\<open>Get\<close> finds it.\<close>

definition resident :: "tier \<Rightarrow> string \<Rightarrow> MultiTierCache \<Rightarrow> bool" where
  "resident t key c = (\<not> isl (store_Get t key c))"

text \<open>
  The environment of the examples: an encoding 64 bytes longer than key and payload, a
  clock that advances by one at each reading, the simulated remote store.
\<close>

definition example_gob_len :: "CacheEntry \<Rightarrow> nat" where
  "example_gob_len e = 64 + length (Key e) + length (Value e)"

definition example_clock :: "nat \<Rightarrow> time" where
  "example_clock n = int n + 1"

definition simulated_cache :: "int \<Rightarrow> int \<Rightarrow> MultiTierCache" where
  "simulated_cache memCap diskCap =
     \<lparr>memoryStore = NewMemoryStore memCap,
      diskStore = NewDiskStore diskCap example_gob_len,
      remoteStore = \<lparr>simulate = True, client = no_redis, simulateMap = []\<rparr>,
      statsHits = 0, statsMisses = 0, clock = example_clock, ticks = 0\<rparr>"

lemmas store_defs =
  NewMemoryStore_def MemoryStore_Get_def MemoryStore_Set_def MemoryStore_Delete_def
  MemoryStore_Clear_def MemoryStore_GetCapacity_def MemoryStore_GetUsage_def
  MemoryStore_Keys_def MemoryStore_GetAll_def
  NewDiskStore_def os_Open_def DiskStore_readEntry_def DiskStore_Get_def DiskStore_Set_def
  DiskStore_Delete_def DiskStore_Clear_def DiskStore_GetCapacity_def DiskStore_GetUsage_def
  DiskStore_Keys_def DiskStore_GetAll_def
  RemoteStore_Get_def RemoteStore_Set_def RemoteStore_Delete_def RemoteStore_Clear_def
  RemoteStore_Keys_def RemoteStore_GetAll_def RemoteStore_GetMetrics_def
  RemoteStore_GetCapacity_def RemoteStore_GetUsage_def remote_entry_def no_redis_def
  zero_time_def errors_Is_def

lemmas store_simps =
  store_Get.simps store_Set.simps store_Delete.simps store_Clear.simps
  store_GetCapacity.simps store_GetUsage.simps store_GetAll.simps

declare store_simps [simp del]

lemmas cache_defs =
  store_simps time_Now_def getNextTier_def promoteEvictedEntry_def evict_body_def promoteToMemory_def
  touch_def cache_Get_def Set_remote_def Set_disk_def cache_Set_def cache_Delete_def
  cache_Clear_def LRUPolicy_Choose_def

lemmas example_defs = simulated_cache_def example_gob_len_def example_clock_def

subsection \<open>Well-formed states and two more example states\<close>

text \<open>
  The memory store files every entry under the entry's own key: \<^verbatim>\<open>MemoryStore.Set\<close> writes
  \<^verbatim>\<open>s.items[entry.Key] = entry\<close> and nothing else writes the map.
\<close>

definition keys_agree :: "MultiTierCache \<Rightarrow> bool" where
  "keys_agree c = (\<forall>(k, e) \<in> set (m_items (memoryStore c)). Key e = k)"

text \<open>
  What no method of a store changes: the capacities, the environment of the disk store,
  the mode and the reachability of the remote store, the clock's sequence of instants.
\<close>

definition same_env :: "MultiTierCache \<Rightarrow> MultiTierCache \<Rightarrow> bool" where
  "same_env c c' =
     (m_capacity (memoryStore c') = m_capacity (memoryStore c) \<and>
      d_capacity (diskStore c') = d_capacity (diskStore c) \<and>
      d_readonly (diskStore c') = d_readonly (diskStore c) \<and>
      d_gob_len (diskStore c') = d_gob_len (diskStore c) \<and>
      simulate (remoteStore c') = simulate (remoteStore c) \<and>
      r_fault (client (remoteStore c')) = r_fault (client (remoteStore c)) \<and>
      clock c' = clock c)"

text \<open>
  A cache whose remote store holds the key \<^verbatim>\<open>r\<close>, and a cache whose scratch directory holds
  the file \<^verbatim>\<open>a\<close> and has lost its write permission.
\<close>

definition remote_only_cache :: MultiTierCache where
  "remote_only_cache =
     (simulated_cache 0 0)\<lparr>remoteStore :=
        \<lparr>simulate = True, client = no_redis, simulateMap = [(''r'', ''remotevalue'')]\<rparr>\<rparr>"

definition readonly_cache :: MultiTierCache where
  "readonly_cache =
     (simulated_cache 20 40)\<lparr>diskStore :=
        \<lparr>d_files = [(''a'', \<lparr>f_entry = \<lparr>Key = ''a'', Value = ''xx'', Size = 2, LastAccess = 1,
                                         Frequency = 1\<rparr>, f_size = 67\<rparr>)],
         d_capacity = 40, d_usage = 2, d_readonly = True, d_gob_len = example_gob_len\<rparr>\<rparr>"

text \<open>
  The tiers a key is resident in, from the hottest to the coldest, and the entry that
  \<^verbatim>\<open>Set\<close> builds from its arguments and the clock.
\<close>

definition tiers_holding :: "string \<Rightarrow> MultiTierCache \<Rightarrow> tier list" where
  "tiers_holding key c = filter (\<lambda>t. resident t key c) [MemoryTier, DiskTier, RemoteTier]"

definition new_entry :: "string \<Rightarrow> bytes \<Rightarrow> time \<Rightarrow> CacheEntry" where
  "new_entry key val now =
     \<lparr>Key = key, Value = val, Size = int (length val), LastAccess = now, Frequency = 1\<rparr>"

text \<open>
  A cache with the entry of the repository's promotion test on disk and a memory store
  too small for it, and a cache whose live remote store cannot be reached.
\<close>

definition promotion_cache :: MultiTierCache where
  "promotion_cache =
     (simulated_cache 5 40)\<lparr>diskStore :=
        \<lparr>d_files = [(''promote'',
                      \<lparr>f_entry = \<lparr>Key = ''promote'', Value = ''promotevalue'', Size = 12,
                                   LastAccess = 0, Frequency = 0\<rparr>,
                       f_size = 83\<rparr>)],
         d_capacity = 40, d_usage = 12, d_readonly = False, d_gob_len = example_gob_len\<rparr>\<rparr>"


text \<open>
  The cache of the repository's promotion test (capacities 20 and 40, the entry put into
  the disk store directly), the cache of its eviction test after the four \<^verbatim>\<open>Set\<close>, and a
  cache (capacities 5 and 40) whose clock gives the same instant at every reading.
\<close>

definition promotion_test_cache :: MultiTierCache where
  "promotion_test_cache =
     (simulated_cache 20 40)\<lparr>diskStore :=
        \<lparr>d_files = [(''promote'',
                      \<lparr>f_entry = \<lparr>Key = ''promote'', Value = ''promotevalue'', Size = 12,
                                   LastAccess = 0, Frequency = 0\<rparr>,
                       f_size = 83\<rparr>)],
         d_capacity = 40, d_usage = 12, d_readonly = False, d_gob_len = example_gob_len\<rparr>\<rparr>"

definition eviction_test_cache :: MultiTierCache where
  "eviction_test_cache =
     the (run [OpSet ''k1'' ''value1'', OpSet ''k2'' ''value2'', OpSet ''k3'' ''value3'',
               OpSet ''k4'' ''longvalue4''] (simulated_cache 20 40))"

definition frozen_clock_cache :: MultiTierCache where
  "frozen_clock_cache = (simulated_cache 5 40)\<lparr>clock := (\<lambda>n. 5)\<rparr>"

subsection \<open>Usage within capacity\<close>

text \<open>
  What the memory store maintains: one item per key, filed under the entry's own key, no
  negative size, \<^verbatim>\<open>usage\<close> the sum of the sizes of the items and at most \<^verbatim>\<open>capacity\<close>. What
  the disk store maintains: no negative size, \<^verbatim>\<open>usage\<close> at most \<^verbatim>\<open>capacity\<close>, and a
  capacity that is not negative. (The usage of the disk store is not the sum of the sizes
  and has no lower bound: \<^verbatim>\<open>DiskStore.Delete\<close> subtracts the length of the file.)
\<close>

definition mem_inv :: "MemoryStore \<Rightarrow> bool" where
  "mem_inv s =
     (distinct (map fst (m_items s)) \<and>
      (\<forall>(k, e) \<in> set (m_items s). Key e = k \<and> 0 \<le> Size e) \<and>
      m_usage s = sum_list (map (\<lambda>p. Size (snd p)) (m_items s)) \<and>
      m_usage s \<le> m_capacity s)"

definition disk_inv :: "DiskStore \<Rightarrow> bool" where
  "disk_inv s =
     ((\<forall>(k, f) \<in> set (d_files s). 0 \<le> Size (f_entry f)) \<and>
      d_usage s \<le> d_capacity s \<and> 0 \<le> d_capacity s)"

definition cache_inv :: "MultiTierCache \<Rightarrow> bool" where
  "cache_inv c = (mem_inv (memoryStore c) \<and> disk_inv (diskStore c))"

section \<open>Properties\<close>

lemmas eval_defs = store_defs cache_defs example_defs evict.simps AList.delete_eq Let_def

subsection \<open>What a store operation leaves alone\<close>

lemma store_Set_other_stores:
  "t \<noteq> MemoryTier \<Longrightarrow> memoryStore (snd (store_Set t e c)) = memoryStore c"
  "t \<noteq> DiskTier \<Longrightarrow> diskStore (snd (store_Set t e c)) = diskStore c"
  "t \<noteq> RemoteTier \<Longrightarrow> remoteStore (snd (store_Set t e c)) = remoteStore c"
  by (cases t; simp add: store_simps split: prod.splits)+

lemma store_Delete_other_stores:
  "t \<noteq> MemoryTier \<Longrightarrow> memoryStore (snd (store_Delete t k c)) = memoryStore c"
  "t \<noteq> DiskTier \<Longrightarrow> diskStore (snd (store_Delete t k c)) = diskStore c"
  "t \<noteq> RemoteTier \<Longrightarrow> remoteStore (snd (store_Delete t k c)) = remoteStore c"
  by (cases t; simp add: store_simps split: prod.splits)+

lemma store_Set_clock:
  "clock (snd (store_Set t e c)) = clock c" "ticks (snd (store_Set t e c)) = ticks c"
  by (cases t; simp add: store_simps split: prod.splits)+

lemma store_Delete_clock:
  "clock (snd (store_Delete t k c)) = clock c" "ticks (snd (store_Delete t k c)) = ticks c"
  by (cases t; simp add: store_simps split: prod.splits)+

lemma store_Get_cong:
  "memoryStore c' = memoryStore c \<Longrightarrow> store_Get MemoryTier k c' = store_Get MemoryTier k c"
  "diskStore c' = diskStore c \<Longrightarrow> store_Get DiskTier k c' = store_Get DiskTier k c"
  "remoteStore c' = remoteStore c \<Longrightarrow> store_Get RemoteTier k c' = store_Get RemoteTier k c"
  by (simp_all add: store_simps)

subsection \<open>Reading after writing and deleting, store by store\<close>

lemma MemoryStore_Get_Set_other:
  "Key e \<noteq> k \<Longrightarrow> MemoryStore_Get (snd (MemoryStore_Set s e)) k = MemoryStore_Get s k"
  by (simp add: MemoryStore_Get_def MemoryStore_Set_def Let_def AList.update_conv')

lemma MemoryStore_Get_Set_same:
  "fst (MemoryStore_Set s e) = None \<Longrightarrow> MemoryStore_Get (snd (MemoryStore_Set s e)) (Key e) = Inr e"
  by (simp add: MemoryStore_Get_def MemoryStore_Set_def Let_def AList.update_conv'
      split: if_splits)

lemma MemoryStore_Set_failed:
  "fst (MemoryStore_Set s e) \<noteq> None \<Longrightarrow> snd (MemoryStore_Set s e) = s"
  by (simp add: MemoryStore_Set_def Let_def split: if_splits)

lemma MemoryStore_Get_Delete_other:
  "k' \<noteq> k \<Longrightarrow> MemoryStore_Get (snd (MemoryStore_Delete s k')) k = MemoryStore_Get s k"
  by (simp add: MemoryStore_Get_def MemoryStore_Delete_def AList.delete_conv'
      split: option.splits)

lemma MemoryStore_Get_Delete_same:
  "isl (MemoryStore_Get (snd (MemoryStore_Delete s k)) k)"
  by (simp add: MemoryStore_Get_def MemoryStore_Delete_def AList.delete_conv'
      split: option.splits)

lemma MemoryStore_Delete_absent:
  "isl (MemoryStore_Get s k) \<Longrightarrow> MemoryStore_Delete s k = (None, s)"
  by (simp add: MemoryStore_Get_def MemoryStore_Delete_def split: option.splits)

lemma DiskStore_Get_Set_other:
  "Key e \<noteq> k \<Longrightarrow> DiskStore_Get (snd (DiskStore_Set s e)) k = DiskStore_Get s k"
  by (simp add: DiskStore_Get_def os_Open_def DiskStore_Set_def AList.update_conv')

lemma DiskStore_Get_Set_same:
  "fst (DiskStore_Set s e) = None \<Longrightarrow> DiskStore_Get (snd (DiskStore_Set s e)) (Key e) = Inr e"
  by (simp add: DiskStore_Get_def os_Open_def DiskStore_Set_def AList.update_conv'
      split: if_splits)

lemma DiskStore_Set_failed:
  "fst (DiskStore_Set s e) \<noteq> None \<Longrightarrow> snd (DiskStore_Set s e) = s"
  by (simp add: DiskStore_Set_def split: if_splits)

lemma DiskStore_Get_Delete_other:
  "k' \<noteq> k \<Longrightarrow> DiskStore_Get (snd (DiskStore_Delete s k')) k = DiskStore_Get s k"
  by (simp add: DiskStore_Get_def os_Open_def DiskStore_Delete_def Let_def AList.delete_conv'
      split: option.splits)

lemma DiskStore_Get_Delete_same:
  "\<not> d_readonly s \<Longrightarrow> isl (DiskStore_Get (snd (DiskStore_Delete s k)) k)"
  by (simp add: DiskStore_Get_def os_Open_def DiskStore_Delete_def Let_def AList.delete_conv'
      split: option.splits)

lemma DiskStore_Delete_absent:
  "isl (DiskStore_Get s k) \<Longrightarrow> DiskStore_Delete s k = (None, s)"
  by (simp add: DiskStore_Get_def os_Open_def DiskStore_Delete_def split: option.splits)

lemma RemoteStore_Get_Set_other:
  "Key e \<noteq> k \<Longrightarrow> RemoteStore_Get (snd (RemoteStore_Set s e)) k = RemoteStore_Get s k"
  by (simp add: RemoteStore_Get_def RemoteStore_Set_def AList.update_conv'
      split: option.splits)

lemma RemoteStore_Get_Set_same:
  "fst (RemoteStore_Set s e) = None \<Longrightarrow>
   RemoteStore_Get (snd (RemoteStore_Set s e)) (Key e) =
     Inr \<lparr>Key = Key e, Value = Value e, Size = 0, LastAccess = zero_time, Frequency = 0\<rparr>"
  by (simp add: RemoteStore_Get_def RemoteStore_Set_def AList.update_conv'
      split: option.splits if_splits)

lemma RemoteStore_Set_failed:
  "fst (RemoteStore_Set s e) \<noteq> None \<Longrightarrow> snd (RemoteStore_Set s e) = s"
  by (simp add: RemoteStore_Set_def split: if_splits option.splits)

lemma RemoteStore_Get_Delete_other:
  "k' \<noteq> k \<Longrightarrow> RemoteStore_Get (snd (RemoteStore_Delete s k')) k = RemoteStore_Get s k"
  by (simp add: RemoteStore_Get_def RemoteStore_Delete_def AList.delete_conv'
      split: option.splits)

lemma RemoteStore_Get_Delete_same:
  "fst (RemoteStore_Delete s k) = None \<Longrightarrow> isl (RemoteStore_Get (snd (RemoteStore_Delete s k)) k)"
  by (simp add: RemoteStore_Get_def RemoteStore_Delete_def AList.delete_conv'
      split: option.splits if_splits)

lemma map_of_None_delete: "map_of al k = None \<Longrightarrow> AList.delete k al = al"
  by (simp add: map_of_eq_None_iff)

lemma RemoteStore_Delete_absent:
  "isl (RemoteStore_Get s k) \<Longrightarrow> simulate s \<or> r_fault (client s) = None \<Longrightarrow>
   RemoteStore_Delete s k = (None, s)"
  by (auto simp: RemoteStore_Get_def RemoteStore_Delete_def map_of_None_delete
      split: option.splits if_splits)

lemma RemoteStore_Get_hit:
  "RemoteStore_Get s key = Inr entry \<Longrightarrow>
   Key entry = key \<and> Size entry = 0 \<and> Frequency entry = 0 \<and> LastAccess entry = zero_time \<and>
   map_of (if simulate s then simulateMap s else r_db (client s)) key = Some (Value entry)"
  by (auto simp: RemoteStore_Get_def split: if_splits option.splits)

subsection \<open>The same, through the interface\<close>

lemma store_Get_Set_other:
  "Key e \<noteq> k \<Longrightarrow> store_Get t k (snd (store_Set t' e c)) = store_Get t k c"
  by (cases t; cases t')
     (simp_all add: store_simps MemoryStore_Get_Set_other DiskStore_Get_Set_other
        RemoteStore_Get_Set_other split: prod.splits,
      (metis snd_conv MemoryStore_Get_Set_other DiskStore_Get_Set_other
             RemoteStore_Get_Set_other)+)


lemma store_Get_Delete_other:
  "k' \<noteq> k \<Longrightarrow> store_Get t k (snd (store_Delete t' k' c)) = store_Get t k c"
  by (cases t; cases t')
     (simp_all add: store_simps MemoryStore_Get_Delete_other DiskStore_Get_Delete_other
        RemoteStore_Get_Delete_other split: prod.splits,
      (metis snd_conv MemoryStore_Get_Delete_other DiskStore_Get_Delete_other
             RemoteStore_Get_Delete_other)+)

lemma store_Get_Set_other_tier:
  "t \<noteq> t' \<Longrightarrow> store_Get t k (snd (store_Set t' e c)) = store_Get t k c"
  by (cases t; cases t'; simp add: store_simps split: prod.splits)

lemma store_Set_resident:
  "fst (store_Set t e c) = None \<Longrightarrow> resident t (Key e) (snd (store_Set t e c))"
  using MemoryStore_Get_Set_same [of "memoryStore c" e]
        DiskStore_Get_Set_same [of "diskStore c" e]
        RemoteStore_Get_Set_same [of "remoteStore c" e]
  by (cases t) (auto simp: resident_def store_simps split: prod.splits)

lemma store_Set_failed:
  "fst (store_Set t e c) \<noteq> None \<Longrightarrow> snd (store_Set t e c) = c"
  using MemoryStore_Set_failed [of "memoryStore c" e]
        DiskStore_Set_failed [of "diskStore c" e]
        RemoteStore_Set_failed [of "remoteStore c" e]
  by (cases t) (auto simp: store_simps split: prod.splits)

subsection \<open>The policy chooses among the entries it is given\<close>

lemma Choose_loop_in:
  "Choose_loop entries acc k = k \<or> (\<exists>e\<in>set entries. Choose_loop entries acc k = Key e)"
proof (induction entries arbitrary: acc k)
  case Nil
  then show ?case by simp
next
  case (Cons entry entries)
  from Cons.IH [of "LastAccess entry" "Key entry"] Cons.IH [of acc k]
  show ?case by auto
qed

lemma LRUPolicy_Choose_in:
  "LRUPolicy_Choose now entries \<noteq> [] \<Longrightarrow> \<exists>e\<in>set entries. LRUPolicy_Choose now entries = Key e"
  using Choose_loop_in [of entries now "[]"]
  by (auto simp: LRUPolicy_Choose_def split: if_splits)

subsection \<open>Eviction from the memory store\<close>

lemma promoteEvictedEntry_cases:
  "promoteEvictedEntry e c = c \<or>
   promoteEvictedEntry e c = snd (store_Set DiskTier e c) \<or>
   promoteEvictedEntry e c = snd (store_Set RemoteTier e c)"
  by (simp add: promoteEvictedEntry_def getNextTier_def)

lemma promoteEvictedEntry_memoryStore:
  "memoryStore (promoteEvictedEntry e c) = memoryStore c"
  using promoteEvictedEntry_cases [of e c]
  by (auto simp: store_Set_other_stores)

lemma promoteEvictedEntry_Get_other:
  "Key e \<noteq> k \<Longrightarrow> store_Get t k (promoteEvictedEntry e c) = store_Get t k c"
  using promoteEvictedEntry_cases [of e c]
  by (auto simp: store_Get_Set_other)

lemma evict_body_Inl:
  "evict_body t c = Inl c' \<Longrightarrow> c' = c \<or> c' = c\<lparr>ticks := Suc (ticks c)\<rparr>"
  by (auto simp: evict_body_def Let_def time_Now_def split: if_splits sum.splits)

lemma evict_body_Memory_Inr:
  assumes "evict_body MemoryTier c = Inr c'" and "keys_agree c"
  shows "\<exists>k e. map_of (m_items (memoryStore c)) k = Some e \<and> Key e = k \<and>
           c' = promoteEvictedEntry e
                  (snd (store_Delete MemoryTier k (c\<lparr>ticks := Suc (ticks c)\<rparr>)))"
proof -
  let ?entries = "MemoryStore_GetAll (memoryStore c)"
  let ?k = "LRUPolicy_Choose (clock c (ticks c)) ?entries"
  let ?c1 = "c\<lparr>ticks := Suc (ticks c)\<rparr>"
  from assms(1) have ne: "?k \<noteq> []"
    by (auto simp: evict_body_def Let_def time_Now_def store_simps split: if_splits)
  from LRUPolicy_Choose_in [OF ne] obtain e0 where
    e0: "e0 \<in> set ?entries" "?k = Key e0" by blast
  then obtain k0 where "(k0, e0) \<in> set (m_items (memoryStore c))"
    by (auto simp: MemoryStore_GetAll_def)
  with assms(2) e0 have "(?k, e0) \<in> set (m_items (memoryStore c))"
    by (auto simp: keys_agree_def)
  then have "?k \<in> fst ` set (m_items (memoryStore c))" by force
  then obtain e where e: "map_of (m_items (memoryStore c)) ?k = Some e"
    by (cases "map_of (m_items (memoryStore c)) ?k") (auto simp: map_of_eq_None_iff)
  then have "(?k, e) \<in> set (m_items (memoryStore c))" by (rule map_of_SomeD)
  with assms(2) have ke: "Key e = ?k" by (auto simp: keys_agree_def)
  from assms(1) ne e have "c' = promoteEvictedEntry e (snd (store_Delete MemoryTier ?k ?c1))"
    by (auto simp: evict_body_def Let_def time_Now_def MemoryStore_Get_def store_simps
        split: if_splits)
  with e ke show ?thesis by blast
qed

lemma keys_agree_delete:
  "keys_agree c \<Longrightarrow> keys_agree (snd (store_Delete MemoryTier k c))"
  by (auto simp: keys_agree_def MemoryStore_Delete_def AList.delete_eq store_simps
      split: prod.splits option.splits)

lemma keys_agree_memoryStore:
  "memoryStore c' = memoryStore c \<Longrightarrow> keys_agree c' = keys_agree c"
  by (simp add: keys_agree_def)

lemma length_delete_less:
  "map_of al k = Some v \<Longrightarrow> length (AList.delete k al) < length al"
proof (induction al)
  case Nil
  then show ?case by simp
next
  case (Cons p al)
  then show ?case
    using AList.length_delete_le [of k al]
    by (cases p) (auto simp: AList.delete_eq split: if_splits intro: le_imp_less_Suc)
qed


lemma store_Get_ticks: "store_Get t k (c\<lparr>ticks := n\<rparr>) = store_Get t k c"
  by (cases t) (simp_all add: store_simps)

lemma store_Get_statsHits: "store_Get t k (c\<lparr>statsHits := n\<rparr>) = store_Get t k c"
  by (cases t) (simp_all add: store_simps)

lemma evict_body_Memory_step:
  assumes "evict_body MemoryTier c = Inr c'" and "keys_agree c"
  shows "keys_agree c' \<and>
         length (m_items (memoryStore c')) < length (m_items (memoryStore c)) \<and>
         m_capacity (memoryStore c') = m_capacity (memoryStore c)"
proof -
  from evict_body_Memory_Inr [OF assms] obtain k e where
    ke: "map_of (m_items (memoryStore c)) k = Some e" "Key e = k"
        "c' = promoteEvictedEntry e
                (snd (store_Delete MemoryTier k (c\<lparr>ticks := Suc (ticks c)\<rparr>)))"
    by blast
  let ?c2 = "snd (store_Delete MemoryTier k (c\<lparr>ticks := Suc (ticks c)\<rparr>))"
  have m: "memoryStore c' = memoryStore ?c2"
    using ke(3) by (simp add: promoteEvictedEntry_memoryStore)
  have "keys_agree (c\<lparr>ticks := Suc (ticks c)\<rparr>)"
    using assms(2) by (simp add: keys_agree_def)
  then have "keys_agree ?c2" by (rule keys_agree_delete)
  with m have 1: "keys_agree c'" by (simp add: keys_agree_def)
  have 2: "memoryStore ?c2 =
           (memoryStore c)\<lparr>m_usage := m_usage (memoryStore c) - Size e,
                             m_items := AList.delete k (m_items (memoryStore c))\<rparr>"
    using ke(1) by (simp add: store_simps MemoryStore_Delete_def)
  from m 2 length_delete_less [OF ke(1)] 1 show ?thesis by simp
qed

lemma evict_body_Memory_frame:
  assumes "evict_body MemoryTier c = Inr c'" and "keys_agree c"
    and "isl (store_Get MemoryTier k0 c)"
  shows "store_Get t k0 c' = store_Get t k0 c"
proof -
  from evict_body_Memory_Inr [OF assms(1,2)] obtain k e where
    ke: "map_of (m_items (memoryStore c)) k = Some e" "Key e = k"
        "c' = promoteEvictedEntry e
                (snd (store_Delete MemoryTier k (c\<lparr>ticks := Suc (ticks c)\<rparr>)))"
    by blast
  from assms(3) ke(1) have ne: "k \<noteq> k0"
    by (auto simp: store_simps MemoryStore_Get_def)
  with ke(2,3) show ?thesis
    by (simp add: promoteEvictedEntry_Get_other store_Get_Delete_other store_Get_ticks)
qed

lemma same_env_refl: "same_env c c"
  by (simp add: same_env_def)

lemma same_env_trans: "same_env c c' \<Longrightarrow> same_env c' c'' \<Longrightarrow> same_env c c''"
  by (simp add: same_env_def)

lemma same_env_ticks: "same_env c (c\<lparr>ticks := n\<rparr>)"
  by (simp add: same_env_def)

lemma same_env_store_Set: "same_env c (snd (store_Set t e c))"
  by (cases t)
     (auto simp: same_env_def store_simps MemoryStore_Set_def DiskStore_Set_def
        RemoteStore_Set_def Let_def split: prod.splits option.splits if_splits)

lemma same_env_store_Delete: "same_env c (snd (store_Delete t k c))"
  by (cases t)
     (auto simp: same_env_def store_simps MemoryStore_Delete_def DiskStore_Delete_def
        RemoteStore_Delete_def Let_def split: prod.splits option.splits if_splits)

lemma same_env_promoteEvictedEntry: "same_env c (promoteEvictedEntry e c)"
  using promoteEvictedEntry_cases [of e c] same_env_store_Set [of c _ e]
  by (auto simp: same_env_refl)

lemma same_env_evict_body:
  assumes "evict_body t c = Inl c' \<or> evict_body t c = Inr c'"
  shows "same_env c c'"
proof -
  let ?c1 = "c\<lparr>ticks := Suc (ticks c)\<rparr>"
  have 1: "same_env c ?c1" by (rule same_env_ticks)
  have 2: "same_env c (snd (store_Delete t k ?c1))" for k
    by (rule same_env_trans [OF 1 same_env_store_Delete])
  have 3: "same_env c (promoteEvictedEntry e (snd (store_Delete t k ?c1)))" for k e
    by (rule same_env_trans [OF 2 same_env_promoteEvictedEntry])
  from assms have
    "c' = c \<or> c' = ?c1 \<or> (\<exists>k. c' = snd (store_Delete t k ?c1)) \<or>
     (\<exists>k e. c' = promoteEvictedEntry e (snd (store_Delete t k ?c1)))"
    by (auto simp: evict_body_def Let_def time_Now_def split: if_splits sum.splits)
  then show ?thesis
    using 1 2 3 same_env_refl [of c] by blast
qed

lemma evict_rule_aux:
  assumes ev: "evict t req c = Some y"
  shows "\<forall>I. I c \<longrightarrow>
     (\<forall>c c'. I c \<longrightarrow> evict_body t c = Inl c' \<or> evict_body t c = Inr c' \<longrightarrow> I c') \<longrightarrow>
     I (snd y) \<and> (fst y \<longrightarrow> req \<le> store_GetCapacity t (snd y) - store_GetUsage t (snd y))"
proof -
  let ?P = "\<lambda>t req c y. \<forall>I. I c \<longrightarrow>
     (\<forall>c c'. I c \<longrightarrow> evict_body t c = Inl c' \<or> evict_body t c = Inr c' \<longrightarrow> I c') \<longrightarrow>
     I (snd y) \<and> (fst y \<longrightarrow> req \<le> store_GetCapacity t (snd y) - store_GetUsage t (snd y))"
  have step: "?P store requiredSpace c y"
    if IH: "\<And>s r c y. evict' s r c = Some y \<Longrightarrow> ?P s r c y"
      and body: "(if store_GetCapacity store c - store_GetUsage store c < requiredSpace
                  then case evict_body store c of
                         Inl c' \<Rightarrow> Some (False, c')
                       | Inr c' \<Rightarrow> evict' store requiredSpace c'
                  else Some (True, c)) = Some y"
    for evict' store requiredSpace c y
  proof (intro allI impI)
    fix I :: "MultiTierCache \<Rightarrow> bool"
    assume I: "I c"
      and step: "\<forall>c c'. I c \<longrightarrow>
                   evict_body store c = Inl c' \<or> evict_body store c = Inr c' \<longrightarrow> I c'"
    show "I (snd y) \<and>
          (fst y \<longrightarrow> requiredSpace
             \<le> store_GetCapacity store (snd y) - store_GetUsage store (snd y))"
    proof (cases "store_GetCapacity store c - store_GetUsage store c < requiredSpace")
      case False
      with body have "y = (True, c)" by simp
      with False I show ?thesis by simp
    next
      case True
      show ?thesis
      proof (cases "evict_body store c")
        case (Inl c1)
        with True body have y: "y = (False, c1)" by simp
        from step I Inl have "I c1" by blast
        with y show ?thesis by simp
      next
        case (Inr c1)
        with True body have rec: "evict' store requiredSpace c1 = Some y" by simp
        from step I Inr have "I c1" by blast
        with IH [OF rec, THEN spec, of I] step show ?thesis by blast
      qed
    qed
  qed
  show ?thesis
    by (rule evict.raw_induct [where P = ?P, OF step ev])
qed

lemma evict_rule:
  assumes ev: "evict t req c = Some (b, c')"
    and I: "I c"
    and step: "\<And>c c'. I c \<Longrightarrow> evict_body t c = Inl c' \<or> evict_body t c = Inr c' \<Longrightarrow> I c'"
  shows "I c' \<and> (b \<longrightarrow> req \<le> store_GetCapacity t c' - store_GetUsage t c')"
proof -
  have "\<forall>c c'. I c \<longrightarrow> evict_body t c = Inl c' \<or> evict_body t c = Inr c' \<longrightarrow> I c'"
    using step by blast
  with evict_rule_aux [OF ev, THEN spec, of I] I
  have "I (snd (b, c')) \<and>
        (fst (b, c') \<longrightarrow>
           req \<le> store_GetCapacity t (snd (b, c')) - store_GetUsage t (snd (b, c')))"
    by blast
  then show ?thesis by simp
qed

lemma evict_Memory_terminates:
  "keys_agree c \<Longrightarrow> \<exists>b c'. evict MemoryTier req c = Some (b, c')"
proof (induction "length (m_items (memoryStore c))" arbitrary: c rule: less_induct)
  case less
  note unfold = evict.simps [of MemoryTier req c]
  show ?case
  proof (cases "store_GetCapacity MemoryTier c - store_GetUsage MemoryTier c < req")
    case False
    then have "evict MemoryTier req c = Some (True, c)" by (simp add: unfold)
    then show ?thesis by blast
  next
    case True
    show ?thesis
    proof (cases "evict_body MemoryTier c")
      case (Inl c')
      with True have "evict MemoryTier req c = Some (False, c')" by (simp add: unfold)
      then show ?thesis by blast
    next
      case (Inr c')
      from evict_body_Memory_step [OF Inr less.prems]
      have "keys_agree c'"
        "length (m_items (memoryStore c')) < length (m_items (memoryStore c))"
        by auto
      from less.hyps [OF this(2,1)] obtain b c'' where
        "evict MemoryTier req c' = Some (b, c'')" by blast
      with True Inr have "evict MemoryTier req c = Some (b, c'')" by (simp add: unfold)
      then show ?thesis by blast
    qed
  qed
qed

lemma evict_Memory:
  assumes ka: "keys_agree c"
  shows "\<exists>b c'. evict MemoryTier req c = Some (b, c') \<and> keys_agree c' \<and> same_env c c' \<and>
           (b \<longrightarrow> req \<le> store_GetCapacity MemoryTier c' - store_GetUsage MemoryTier c') \<and>
           (\<forall>k0. isl (store_Get MemoryTier k0 c) \<longrightarrow> (\<forall>t. store_Get t k0 c' = store_Get t k0 c))"
proof -
  from evict_Memory_terminates [OF ka] obtain b c' where
    ev: "evict MemoryTier req c = Some (b, c')" by blast
  let ?I = "\<lambda>x. keys_agree x \<and> same_env c x \<and>
              (\<forall>k0. isl (store_Get MemoryTier k0 c) \<longrightarrow> (\<forall>t. store_Get t k0 x = store_Get t k0 c))"
  have I0: "?I c" using ka by (simp add: same_env_refl)
  have step: "?I x'" if Ix: "?I x"
    and b: "evict_body MemoryTier x = Inl x' \<or> evict_body MemoryTier x = Inr x'" for x x'
  proof -
    from same_env_evict_body [OF b] Ix have env: "same_env c x'"
      by (blast intro: same_env_trans)
    from b show ?thesis
    proof
      assume "evict_body MemoryTier x = Inl x'"
      from evict_body_Inl [OF this] Ix env show ?thesis
        by (auto simp: keys_agree_def store_Get_ticks)
    next
      assume r: "evict_body MemoryTier x = Inr x'"
      from Ix have kx: "keys_agree x" by simp
      from evict_body_Memory_step [OF r kx] have "keys_agree x'" by simp
      moreover have "store_Get t k0 x' = store_Get t k0 c"
        if "isl (store_Get MemoryTier k0 c)" for k0 t
      proof -
        from that Ix have "isl (store_Get MemoryTier k0 x)" by simp
        from evict_body_Memory_frame [OF r kx this, of t] that Ix show ?thesis by simp
      qed
      ultimately show ?thesis using env by blast
    qed
  qed
  have "?I c' \<and> (b \<longrightarrow> req \<le> store_GetCapacity MemoryTier c' - store_GetUsage MemoryTier c')"
  proof (rule evict_rule [where I = ?I, OF ev I0])
    fix x x'
    assume "?I x" and "evict_body MemoryTier x = Inl x' \<or> evict_body MemoryTier x = Inr x'"
    then show "?I x'" by (rule step)
  qed
  with ev show ?thesis by blast
qed


subsection \<open>Set, step by step\<close>

lemma MemoryStore_Set_error:
  "fst (MemoryStore_Set s e) = None \<or> fst (MemoryStore_Set s e) = Some ErrInsufficientCapacity"
  by (simp add: MemoryStore_Set_def Let_def)

lemma DiskStore_Set_error:
  "fst (DiskStore_Set s e) \<noteq> Some ErrInsufficientCapacity"
  by (simp add: DiskStore_Set_def)

lemma Set_disk_eq:
  "Set_disk entry c =
     Some (if fst (store_Set DiskTier entry c) = None then store_Set DiskTier entry c
           else store_Set RemoteTier entry c)"
proof (cases "fst (store_Set DiskTier entry c)")
  case None
  then obtain c1 where "store_Set DiskTier entry c = (None, c1)"
    by (cases "store_Set DiskTier entry c") auto
  then show ?thesis by (simp add: Set_disk_def)
next
  case (Some err)
  then have ne: "fst (store_Set DiskTier entry c) \<noteq> None" by simp
  from Some DiskStore_Set_error [of "diskStore c" entry]
  have "err \<noteq> ErrInsufficientCapacity"
    by (auto simp: store_simps split: prod.splits)
  with Some store_Set_failed [OF ne] show ?thesis
    by (auto simp: Set_disk_def Set_remote_def errors_Is_def split: prod.splits)
qed

lemma cache_Set_eq:
  assumes "keys_agree c"
  shows "\<exists>b c2.
           evict MemoryTier (int (length val)) (c\<lparr>ticks := Suc (ticks c)\<rparr>) = Some (b, c2) \<and>
           cache_Set key val c =
             Some (let c0 = c\<lparr>ticks := Suc (ticks c)\<rparr>;
                       entry = new_entry key val (clock c (ticks c))
                   in if fst (store_Set MemoryTier entry c0) = None
                      then store_Set MemoryTier entry c0
                      else if b \<and> fst (store_Set MemoryTier entry c2) = None
                      then store_Set MemoryTier entry c2
                      else if fst (store_Set DiskTier entry c2) = None
                      then store_Set DiskTier entry c2
                      else store_Set RemoteTier entry c2)"
proof -
  let ?c0 = "c\<lparr>ticks := Suc (ticks c)\<rparr>"
  let ?entry = "new_entry key val (clock c (ticks c))"
  have sz: "Size ?entry = int (length val)" by (simp add: new_entry_def)
  from assms have "keys_agree ?c0" by (simp add: keys_agree_def)
  from evict_Memory_terminates [OF this, of "int (length val)"] obtain b c2 where
    ev: "evict MemoryTier (int (length val)) ?c0 = Some (b, c2)" by blast
  have unfold: "cache_Set key val c =
      (case store_Set MemoryTier ?entry ?c0 of
         (None, c1) \<Rightarrow> Some (None, c1)
       | (Some err, c1) \<Rightarrow>
           (if errors_Is err ErrInsufficientCapacity
            then (case evict MemoryTier (Size ?entry) c1 of
                    None \<Rightarrow> None
                  | Some (evicted, c2) \<Rightarrow>
                      (if evicted
                       then (case store_Set MemoryTier ?entry c2 of
                               (None, c3) \<Rightarrow> Some (None, c3)
                             | (Some err', c3) \<Rightarrow> Set_disk ?entry c3)
                       else Set_disk ?entry c2))
            else Set_disk ?entry c1))"
    unfolding cache_Set_def time_Now_def Let_def new_entry_def by simp
  have "cache_Set key val c =
          Some (if fst (store_Set MemoryTier ?entry ?c0) = None
                then store_Set MemoryTier ?entry ?c0
                else if b \<and> fst (store_Set MemoryTier ?entry c2) = None
                then store_Set MemoryTier ?entry c2
                else if fst (store_Set DiskTier ?entry c2) = None
                then store_Set DiskTier ?entry c2
                else store_Set RemoteTier ?entry c2)"
  proof (cases "fst (store_Set MemoryTier ?entry ?c0)")
    case None
    then obtain c1 where "store_Set MemoryTier ?entry ?c0 = (None, c1)"
      by (cases "store_Set MemoryTier ?entry ?c0") auto
    then show ?thesis by (simp add: unfold)
  next
    case (Some err)
    then have ne: "fst (store_Set MemoryTier ?entry ?c0) \<noteq> None" by simp
    from Some MemoryStore_Set_error [of "memoryStore ?c0" ?entry]
    have err: "err = ErrInsufficientCapacity"
      by (auto simp: store_simps split: prod.splits)
    have st: "store_Set MemoryTier ?entry ?c0 = (Some err, ?c0)"
      using Some store_Set_failed [OF ne] by (cases "store_Set MemoryTier ?entry ?c0") simp
    show ?thesis
    proof (cases "b \<and> fst (store_Set MemoryTier ?entry c2) = None")
      case True
      then obtain c3 where "store_Set MemoryTier ?entry c2 = (None, c3)"
        by (cases "store_Set MemoryTier ?entry c2") auto
      with True st err ev sz Some show ?thesis
        by (simp add: unfold errors_Is_def)
    next
      case False
      have tail: "(if b then (case store_Set MemoryTier ?entry c2 of
                          (None, c3) \<Rightarrow> Some (None, c3)
                        | (Some err', c3) \<Rightarrow> Set_disk ?entry c3)
             else Set_disk ?entry c2) = Set_disk ?entry c2"
      proof (cases b)
        case True
        with False have ne2: "fst (store_Set MemoryTier ?entry c2) \<noteq> None" by simp
        from store_Set_failed [OF ne2] ne2 True show ?thesis
          by (cases "store_Set MemoryTier ?entry c2") auto
      next
        case False
        then show ?thesis by simp
      qed
      have "cache_Set key val c = Set_disk ?entry c2"
        using st err ev sz tail by (simp add: unfold errors_Is_def)
      with Some False show ?thesis
        by (auto simp: Set_disk_eq)
    qed
  qed
  with ev show ?thesis by (simp add: Let_def)
qed

lemma RemoteStore_Set_error:
  "fst (RemoteStore_Set s e) = Some err \<Longrightarrow>
   \<not> simulate s \<and> r_fault (client s) = Some msg \<longrightarrow> err = ErrRedis msg"
  by (auto simp: RemoteStore_Set_def split: if_splits option.splits)

lemma RemoteStore_Set_error_live:
  "fst (RemoteStore_Set s e) = Some err \<Longrightarrow>
   \<not> simulate s \<and> (\<exists>msg. r_fault (client s) = Some msg \<and> err = ErrRedis msg)"
  by (auto simp: RemoteStore_Set_def split: if_splits option.splits)

lemma same_env_remote:
  "same_env c c' \<Longrightarrow>
   simulate (remoteStore c') = simulate (remoteStore c) \<and>
   r_fault (client (remoteStore c')) = r_fault (client (remoteStore c))"
  by (simp add: same_env_def)

lemma cache_Set_outcome:
  assumes ka: "keys_agree c"
  shows "\<exists>err c' t.
           cache_Set key val c = Some (err, c') \<and>
           (err = None \<longrightarrow>
              resident t key c' \<and>
              (isl (store_Get MemoryTier key c) \<longrightarrow>
                 (\<forall>t'. t' \<noteq> t \<longrightarrow> store_Get t' key c' = store_Get t' key c))) \<and>
           (err \<noteq> None \<longrightarrow>
              store_Set RemoteTier (new_entry key val (clock c (ticks c))) c' = (err, c') \<and>
              \<not> simulate (remoteStore c) \<and>
              (\<exists>msg. r_fault (client (remoteStore c)) = Some msg \<and> err = Some (ErrRedis msg)))"
proof -
  let ?c0 = "c\<lparr>ticks := Suc (ticks c)\<rparr>"
  let ?entry = "new_entry key val (clock c (ticks c))"
  have k: "Key ?entry = key" by (simp add: new_entry_def)
  from ka have ka0: "keys_agree ?c0" by (simp add: keys_agree_def)
  from cache_Set_eq [OF ka, of val key] obtain b c2 where
    ev: "evict MemoryTier (int (length val)) ?c0 = Some (b, c2)"
    and eq: "cache_Set key val c =
             Some (if fst (store_Set MemoryTier ?entry ?c0) = None
                   then store_Set MemoryTier ?entry ?c0
                   else if b \<and> fst (store_Set MemoryTier ?entry c2) = None
                   then store_Set MemoryTier ?entry c2
                   else if fst (store_Set DiskTier ?entry c2) = None
                   then store_Set DiskTier ?entry c2
                   else store_Set RemoteTier ?entry c2)"
    by (auto simp: Let_def)
  from evict_Memory [OF ka0, of "int (length val)"] ev have
    env2: "same_env ?c0 c2"
    and frame2: "\<And>k0 t. isl (store_Get MemoryTier k0 ?c0) \<Longrightarrow>
                   store_Get t k0 c2 = store_Get t k0 ?c0"
    by auto
  have frame: "store_Get t key c2 = store_Get t key c"
    if "isl (store_Get MemoryTier key c)" for t
    using frame2 [of key t] that by (simp add: store_Get_ticks)
  have placed: "resident t key (snd (store_Set t ?entry x))"
    if "fst (store_Set t ?entry x) = None" for t x
    using store_Set_resident [OF that] k by simp
  have others: "store_Get t' key (snd (store_Set t ?entry x)) = store_Get t' key x"
    if "t' \<noteq> t" for t t' x
    using that by (rule store_Get_Set_other_tier)
  define r0 where "r0 = store_Set MemoryTier ?entry ?c0"
  define r1 where "r1 = store_Set MemoryTier ?entry c2"
  define r2 where "r2 = store_Set DiskTier ?entry c2"
  define r3 where "r3 = store_Set RemoteTier ?entry c2"
  define m1 where "m1 \<longleftrightarrow> b \<and> fst r1 = None"
  from eq have eq': "cache_Set key val c =
      Some (if fst r0 = None then r0
            else if m1 then r1
            else if fst r2 = None then r2 else r3)"
    by (simp only: r0_def r1_def r2_def r3_def m1_def)
  have in_memory0: ?thesis if "cache_Set key val c = Some r0" "fst r0 = None"
  proof -
    from that have "cache_Set key val c = Some (None, snd r0)"
      by (simp add: prod_eq_iff)
    moreover have "resident MemoryTier key (snd r0)"
      using that(2) unfolding r0_def by (rule placed)
    moreover have "store_Get t' key (snd r0) = store_Get t' key c"
      if "t' \<noteq> MemoryTier" for t'
      using others [OF that, of ?c0] by (simp add: store_Get_ticks r0_def)
    ultimately show ?thesis by blast
  qed
  have after_evict: ?thesis
    if res: "cache_Set key val c = Some (store_Set t ?entry c2)"
      and ok: "fst (store_Set t ?entry c2) = None" for t
  proof -
    from res ok have "cache_Set key val c = Some (None, snd (store_Set t ?entry c2))"
      by (simp add: prod_eq_iff)
    moreover have "resident t key (snd (store_Set t ?entry c2))"
      by (rule placed [OF ok])
    moreover have "store_Get t' key (snd (store_Set t ?entry c2)) = store_Get t' key c"
      if "t' \<noteq> t" "isl (store_Get MemoryTier key c)" for t'
      using others [OF that(1), of c2] frame [OF that(2), of t'] by simp
    ultimately show ?thesis by blast
  qed
  have remote_failed: ?thesis
    if res: "cache_Set key val c = Some r3" and bad: "fst r3 = Some err" for err
  proof -
    from bad have ne: "fst (store_Set RemoteTier ?entry c2) \<noteq> None"
      by (simp add: r3_def)
    from store_Set_failed [OF ne] bad
    have st: "r3 = (Some err, c2)"
      by (cases r3) (simp add: r3_def)
    from bad have "fst (RemoteStore_Set (remoteStore c2) ?entry) = Some err"
      by (simp add: r3_def store_simps split: prod.splits)
    from RemoteStore_Set_error_live [OF this] same_env_remote [OF env2]
    have "\<not> simulate (remoteStore c) \<and>
          (\<exists>msg. r_fault (client (remoteStore c)) = Some msg \<and> err = ErrRedis msg)"
      by simp
    moreover from st have "store_Set RemoteTier ?entry c2 = (Some err, c2)"
      by (simp add: r3_def)
    ultimately show ?thesis using res st by auto
  qed
  show ?thesis
  proof (cases "fst r0")
    case None
    with eq' show ?thesis by (intro in_memory0) simp_all
  next
    case e0: (Some err0)
    show ?thesis
    proof (cases m1)
      case True
      then have "fst r1 = None" by (simp add: m1_def)
      with True e0 eq' show ?thesis
        by (intro after_evict [of MemoryTier]) (simp_all add: r1_def)
    next
      case nb: False
      show ?thesis
      proof (cases "fst r2")
        case None
        with e0 nb eq' show ?thesis
          by (intro after_evict [of DiskTier]) (simp_all add: r2_def)
      next
        case e2: (Some err2)
        show ?thesis
        proof (cases "fst r3")
          case None
          with e0 nb e2 eq' show ?thesis
            by (intro after_evict [of RemoteTier]) (simp_all add: r3_def)
        next
          case (Some err3)
          with e0 nb e2 eq' show ?thesis
            by (intro remote_failed [of err3]) simp_all
        qed
      qed
    qed
  qed
qed

lemma tiers_holding_one:
  assumes "resident t key c'"
    and "\<And>t'. t' \<noteq> t \<Longrightarrow> store_Get t' key c' = store_Get t' key c"
    and "tiers_holding key c = []"
  shows "length (tiers_holding key c') = 1"
proof -
  from assms(3) have none: "\<not> resident t' key c" for t'
    by (cases t') (auto simp: tiers_holding_def split: if_splits)
  have "\<not> resident t' key c'" if "t' \<noteq> t" for t'
    using assms(2) [OF that] none [of t'] by (simp add: resident_def)
  with assms(1) show ?thesis
    by (cases t) (auto simp: tiers_holding_def)
qed

lemma tiers_holding_nonempty: "resident t key c \<Longrightarrow> tiers_holding key c \<noteq> []"
  by (cases t) (auto simp: tiers_holding_def)

lemma tiers_holding_memory:
  "tiers_holding key c = [] \<Longrightarrow> isl (store_Get MemoryTier key c)"
  by (auto simp: tiers_holding_def resident_def split: if_splits)

subsection \<open>The policy\<close>

lemma Choose_loop_none_older:
  "\<forall>e\<in>set entries. acc \<le> LastAccess e \<Longrightarrow> Choose_loop entries acc k = k"
  by (induction entries arbitrary: acc k) auto

lemma Choose_loop_some_older:
  "\<exists>e\<in>set entries. LastAccess e < acc \<Longrightarrow>
   \<exists>e\<in>set entries. Choose_loop entries acc k = Key e \<and> LastAccess e < acc \<and>
     (\<forall>e'\<in>set entries. LastAccess e \<le> LastAccess e')"
proof (induction entries arbitrary: acc k)
  case Nil
  then show ?case by simp
next
  case (Cons entry entries)
  show ?case
  proof (cases "LastAccess entry < acc")
    case True
    note older = True
    show ?thesis
    proof (cases "\<exists>e\<in>set entries. LastAccess e < LastAccess entry")
      case True
      from Cons.IH [OF True, of "Key entry"] obtain e where
        e: "e \<in> set entries" "Choose_loop entries (LastAccess entry) (Key entry) = Key e"
           "LastAccess e < LastAccess entry" "\<forall>e'\<in>set entries. LastAccess e \<le> LastAccess e'"
        by blast
      with older show ?thesis by (intro bexI [of _ e]) auto
    next
      case False
      then have all: "\<forall>e\<in>set entries. LastAccess entry \<le> LastAccess e" by auto
      from Choose_loop_none_older [OF all, of "Key entry"] older all
      show ?thesis by (intro bexI [of _ entry]) auto
    qed
  next
    case False
    with Cons.prems have ex: "\<exists>e\<in>set entries. LastAccess e < acc" by auto
    from Cons.IH [OF ex, of k] obtain e where
      e: "e \<in> set entries" "Choose_loop entries acc k = Key e"
         "LastAccess e < acc" "\<forall>e'\<in>set entries. LastAccess e \<le> LastAccess e'"
      by blast
    with False show ?thesis by (intro bexI [of _ e]) auto
  qed
qed

text \<open>
  What \<^verbatim>\<open>Choose\<close> computes, as a function of the snapshot and of the instant \<open>now\<close> it reads
  from the clock: the empty key for the empty snapshot; the key of an entry with the least
  \<^verbatim>\<open>LastAccess\<close> when some entry was last accessed strictly before \<open>now\<close>; the empty key
  when no entry is older than \<open>now\<close>.
\<close>

lemma LRUPolicy_Choose_cases:
  "(entries = [] \<longrightarrow> LRUPolicy_Choose now entries = []) \<and>
   ((\<exists>e\<in>set entries. LastAccess e < now) \<longrightarrow>
      (\<exists>e\<in>set entries. LRUPolicy_Choose now entries = Key e \<and>
         (\<forall>e'\<in>set entries. LastAccess e \<le> LastAccess e'))) \<and>
   ((\<forall>e\<in>set entries. now \<le> LastAccess e) \<longrightarrow> LRUPolicy_Choose now entries = [])"
proof (intro conjI impI)
  assume "entries = []"
  then show "LRUPolicy_Choose now entries = []" by (simp add: LRUPolicy_Choose_def)
next
  assume ex: "\<exists>e\<in>set entries. LastAccess e < now"
  then have "entries \<noteq> []" by auto
  with Choose_loop_some_older [OF ex, of "[]"]
  show "\<exists>e\<in>set entries. LRUPolicy_Choose now entries = Key e \<and>
         (\<forall>e'\<in>set entries. LastAccess e \<le> LastAccess e')"
    by (auto simp: LRUPolicy_Choose_def)
next
  assume "\<forall>e\<in>set entries. now \<le> LastAccess e"
  then show "LRUPolicy_Choose now entries = []"
    by (simp add: LRUPolicy_Choose_def Choose_loop_none_older)
qed

text \<open>
  Claim C9 says that \<^verbatim>\<open>Choose\<close> returns the key of an entry whose \<^verbatim>\<open>LastAccess\<close> is minimal,
  and the empty key only for the empty snapshot. \<^verbatim>\<open>Choose\<close> answers the empty snapshot
  first and then searches the minimum in \<^verbatim>\<open>oldestAccess\<close> and \<^verbatim>\<open>oldestKey\<close>, but it starts
  the search from \<^verbatim>\<open>time.Now()\<close> and takes an entry only when it is strictly older: for the
  snapshot of one entry last accessed at the instant 5, read at the instant 5, it returns
  the empty key. In the coordinator, with capacities 5 and 40 and a clock that gives the
  same instant again: \<^verbatim>\<open>Set\<close> of three bytes for \<^verbatim>\<open>k\<close> lands in the memory store; \<^verbatim>\<open>Set\<close> of
  eight bytes for \<^verbatim>\<open>k\<close> is refused there, \<^verbatim>\<open>evict\<close> is given no victim and gives up with the
  entry still in the memory store, and the new value goes to the disk store; \<^verbatim>\<open>Get\<close> then
  answers the old value from the memory store.
\<close>

theorem choose_passes_over_entry_as_old_as_clock:
  "LRUPolicy_Choose 5
     [\<lparr>Key = ''a'', Value = ''x'', Size = 1, LastAccess = 5, Frequency = 1\<rparr>] = [] \<and>
   (case run [OpSet ''k'' ''aaa'', OpSet ''k'' ''bbbbbbbb''] frozen_clock_cache of
      None \<Rightarrow> False
    | Some c \<Rightarrow>
        map Value (store_GetAll MemoryTier c) = [''aaa''] \<and>
        map Value (store_GetAll DiskTier c) = [''bbbbbbbb''] \<and>
        LRUPolicy_Choose 5 (store_GetAll MemoryTier c) = [] \<and>
        (case cache_Get ''k'' c of
           None \<Rightarrow> False
         | Some (r, c') \<Rightarrow> r = Inr ''aaa''))"
  by (simp add: frozen_clock_cache_def eval_defs)

subsection \<open>The admission cascade\<close>

text \<open>
  Claim C1 says that the coordinator recognises the local tier's capacity rejection and
  evicts from the local tier before it falls through to the remote tier. The disk store
  never returns the package's \<^verbatim>\<open>ErrInsufficientCapacity\<close>: its rejection is a fresh
  \<^verbatim>\<open>errors.New("insufficient capacity")\<close>, which \<^verbatim>\<open>errors.Is\<close> does not match. With
  capacities 0 and 10 and \<^verbatim>\<open>a\<close> (6 bytes) on disk, setting \<^verbatim>\<open>b\<close> (6 bytes) is rejected by the
  disk store and goes to the remote store with the disk store left as it was: nothing is
  evicted from it and the write is not tried again.
\<close>

theorem local_rejection_is_not_the_sentinel:
  "(\<forall>s entry. fst (DiskStore_Set s entry) \<noteq> Some ErrInsufficientCapacity) \<and>
   (case run [OpSet ''a'' ''aaaaaa''] (simulated_cache 0 10) of
      None \<Rightarrow> False
    | Some c \<Rightarrow>
        fst (store_Set DiskTier
               \<lparr>Key = ''b'', Value = ''bbbbbb'', Size = 6, LastAccess = 2, Frequency = 1\<rparr> c)
          = Some (ErrNew ''insufficient capacity'') \<and>
        (case cache_Set ''b'' ''bbbbbb'' c of
           None \<Rightarrow> False
         | Some (err, c') \<Rightarrow>
             err = None \<and>
             resident DiskTier ''a'' c' \<and> \<not> resident RemoteTier ''a'' c' \<and>
             \<not> resident DiskTier ''b'' c' \<and> resident RemoteTier ''b'' c' \<and>
             diskStore c' = diskStore c))"
  apply (rule conjI)
   apply (simp add: DiskStore_Set_def)
  apply (simp add: eval_defs resident_def)
  done

subsection \<open>Usage accounting of the disk store\<close>

text \<open>
  Claim C3 says that the usage a tier reports is the sum of the sizes of its resident
  entries. With capacities 0 and 100, setting \<^verbatim>\<open>a\<close> twice to a two-byte value leaves one
  entry of size 2 on disk and a usage of 4: \<^verbatim>\<open>DiskStore.Set\<close> charges the new size and
  does not credit the size of the file it overwrites. Setting \<^verbatim>\<open>a\<close> once and deleting it
  leaves no entry and a usage of \<open>2 - 67\<close>: \<^verbatim>\<open>DiskStore.Delete\<close> credits the length of the
  file (67 bytes in the example encoding) and not the size of the entry.
\<close>

theorem local_usage_counts_overwrite_twice:
  "(case run [OpSet ''a'' ''xx'', OpSet ''a'' ''xx''] (simulated_cache 0 100) of
      None \<Rightarrow> False
    | Some c \<Rightarrow>
        map Key (store_GetAll DiskTier c) = [''a''] \<and>
        sum_list (map Size (store_GetAll DiskTier c)) = 2 \<and>
        store_GetUsage DiskTier c = 4) \<and>
   (case run [OpSet ''a'' ''xx'', OpDelete ''a''] (simulated_cache 0 100) of
      None \<Rightarrow> False
    | Some c \<Rightarrow>
        store_GetAll DiskTier c = [] \<and>
        store_GetUsage DiskTier c = 2 - 67)"
  by (simp add: eval_defs)

subsection \<open>Where a successful set leaves the key\<close>

text \<open>
  Claim C4, as stated: after a successful \<^verbatim>\<open>Set\<close> the key is resident in exactly one tier,
  also when it was resident in a colder tier before. With capacities 2 and 10, a
  three-byte value for \<^verbatim>\<open>a\<close> lands on disk; a second \<^verbatim>\<open>Set\<close> of \<^verbatim>\<open>a\<close> with a one-byte value
  succeeds in the memory store, and the disk store still holds the older copy: the key is
  resident in two tiers.
\<close>

theorem set_leaves_colder_copy_counterexample:
  "(case run [OpSet ''a'' ''xxx''] (simulated_cache 2 10) of
      None \<Rightarrow> False
    | Some c \<Rightarrow>
        tiers_holding ''a'' c = [DiskTier] \<and>
        (case cache_Set ''a'' ''x'' c of
           None \<Rightarrow> False
         | Some (err, c') \<Rightarrow> err = None \<and> tiers_holding ''a'' c' = [MemoryTier, DiskTier]))"
  by (simp add: eval_defs tiers_holding_def resident_def)

subsection \<open>What set leaves in the colder tiers\<close>

lemma store_Set_keeps_resident:
  assumes "resident t k c"
  shows "resident t k (snd (store_Set t' e c))"
proof (cases "fst (store_Set t' e c) = None")
  case False
  from store_Set_failed [OF this] assms show ?thesis by simp
next
  case True
  show ?thesis
  proof (cases "t = t' \<and> Key e = k")
    case True
    with \<open>fst (store_Set t' e c) = None\<close> store_Set_resident [of t' e c] show ?thesis by auto
  next
    case False
    then have "store_Get t k (snd (store_Set t' e c)) = store_Get t k c"
      using store_Get_Set_other [of e k t t' c] store_Get_Set_other_tier [of t t' k e c]
      by auto
    with assms show ?thesis by (simp add: resident_def)
  qed
qed

lemma store_Get_Delete_other_tier:
  "t \<noteq> t' \<Longrightarrow> store_Get t k (snd (store_Delete t' k' c)) = store_Get t k c"
  by (cases t; cases t'; simp add: store_simps split: prod.splits)

lemma resident_ticks: "resident t k (c\<lparr>ticks := n\<rparr>) = resident t k c"
  by (simp add: resident_def store_Get_ticks)

lemma promoteEvictedEntry_keeps_resident:
  "resident t k c \<Longrightarrow> resident t k (promoteEvictedEntry e c)"
  using promoteEvictedEntry_cases [of e c] store_Set_keeps_resident [of t k c _ e]
  by auto

lemma evict_body_Memory_keeps_colder:
  assumes "evict_body MemoryTier c = Inl c' \<or> evict_body MemoryTier c = Inr c'"
    and "t \<noteq> MemoryTier" and "resident t k c"
  shows "resident t k c'"
proof -
  let ?c1 = "c\<lparr>ticks := Suc (ticks c)\<rparr>"
  have 1: "resident t k ?c1" using assms(3) by (simp add: resident_ticks)
  have 2: "resident t k (snd (store_Delete MemoryTier k' ?c1))" for k'
    using 1 assms(2) by (simp add: resident_def store_Get_Delete_other_tier)
  have 3: "resident t k (promoteEvictedEntry e (snd (store_Delete MemoryTier k' ?c1)))" for k' e
    using 2 by (rule promoteEvictedEntry_keeps_resident)
  from assms(1) have
    "c' = c \<or> c' = ?c1 \<or> (\<exists>k'. c' = snd (store_Delete MemoryTier k' ?c1)) \<or>
     (\<exists>k' e. c' = promoteEvictedEntry e (snd (store_Delete MemoryTier k' ?c1)))"
    by (auto simp: evict_body_def Let_def time_Now_def split: if_splits sum.splits)
  with assms(3) 1 2 3 show ?thesis by blast
qed

lemma evict_Memory_keeps_colder:
  assumes ev: "evict MemoryTier req c = Some (b, c')"
    and t: "t \<noteq> MemoryTier" and r: "resident t k c"
  shows "resident t k c'"
proof -
  have "resident t k c' \<and>
        (b \<longrightarrow> req \<le> store_GetCapacity MemoryTier c' - store_GetUsage MemoryTier c')"
  proof (rule evict_rule [where I = "resident t k", OF ev r])
    fix x x'
    assume "resident t k x"
      and "evict_body MemoryTier x = Inl x' \<or> evict_body MemoryTier x = Inr x'"
    then show "resident t k x'" using t evict_body_Memory_keeps_colder by blast
  qed
  then show ?thesis ..
qed

lemma store_Set_value:
  assumes "fst (store_Set t e c) = None"
  shows "\<exists>e'. store_Get t (Key e) (snd (store_Set t e c)) = Inr e' \<and> Value e' = Value e"
  using assms MemoryStore_Get_Set_same [of "memoryStore c" e]
        DiskStore_Get_Set_same [of "diskStore c" e]
        RemoteStore_Get_Set_same [of "remoteStore c" e]
  by (cases t) (auto simp: store_simps split: prod.splits)

lemma cache_Set_cases:
  assumes "keys_agree c"
  shows "\<exists>b c2 t cx.
           evict MemoryTier (int (length val)) (c\<lparr>ticks := Suc (ticks c)\<rparr>) = Some (b, c2) \<and>
           (cx = c\<lparr>ticks := Suc (ticks c)\<rparr> \<or> cx = c2) \<and>
           cache_Set key val c = Some (store_Set t (new_entry key val (clock c (ticks c))) cx)"
proof -
  let ?c0 = "c\<lparr>ticks := Suc (ticks c)\<rparr>"
  let ?e = "new_entry key val (clock c (ticks c))"
  from cache_Set_eq [OF assms, of val key]
  obtain b c2 where ev: "evict MemoryTier (int (length val)) ?c0 = Some (b, c2)"
    and eq: "cache_Set key val c =
             Some (if fst (store_Set MemoryTier ?e ?c0) = None
                   then store_Set MemoryTier ?e ?c0
                   else if b \<and> fst (store_Set MemoryTier ?e c2) = None
                   then store_Set MemoryTier ?e c2
                   else if fst (store_Set DiskTier ?e c2) = None
                   then store_Set DiskTier ?e c2
                   else store_Set RemoteTier ?e c2)"
    unfolding Let_def by blast
  from eq have "(\<exists>t. cache_Set key val c = Some (store_Set t ?e ?c0)) \<or>
                (\<exists>t. cache_Set key val c = Some (store_Set t ?e c2))"
    by (auto split: if_splits)
  with ev show ?thesis by blast
qed

lemma cache_Set_keeps_colder:
  assumes ka: "keys_agree c"
    and res: "cache_Set key val c = Some (err, c')"
    and t: "t \<noteq> MemoryTier" and r: "resident t k c"
  shows "resident t k c'"
proof -
  let ?c0 = "c\<lparr>ticks := Suc (ticks c)\<rparr>"
  from cache_Set_cases [OF ka, of val key] obtain b c2 t' cx where
    ev: "evict MemoryTier (int (length val)) ?c0 = Some (b, c2)"
    and cx: "cx = ?c0 \<or> cx = c2"
    and eq: "cache_Set key val c = Some (store_Set t' (new_entry key val (clock c (ticks c))) cx)"
    by blast
  have r0: "resident t k ?c0" using r by (simp add: resident_ticks)
  from evict_Memory_keeps_colder [OF ev t r0] have r2: "resident t k c2" .
  from cx r0 r2 have "resident t k cx" by blast
  then have "resident t k (snd (store_Set t' (new_entry key val (clock c (ticks c))) cx))"
    by (rule store_Set_keeps_resident)
  moreover from eq res have "store_Set t' (new_entry key val (clock c (ticks c))) cx = (err, c')"
    by simp
  ultimately show ?thesis by simp
qed

lemma cache_Set_value:
  assumes ka: "keys_agree c"
    and res: "cache_Set key val c = Some (None, c')"
  shows "\<exists>t e. store_Get t key c' = Inr e \<and> Value e = val"
proof -
  from cache_Set_cases [OF ka, of val key] obtain b c2 t' cx where
    eq: "cache_Set key val c = Some (store_Set t' (new_entry key val (clock c (ticks c))) cx)"
    by blast
  let ?e = "new_entry key val (clock c (ticks c))"
  from eq res have r: "store_Set t' ?e cx = (None, c')" by simp
  then have "fst (store_Set t' ?e cx) = None" by simp
  from store_Set_value [OF this] r show ?thesis
    by (auto simp: new_entry_def)
qed

text \<open>
  Claim C4, amended: \<^verbatim>\<open>Set\<close> returns. After a successful \<^verbatim>\<open>Set\<close> the key is resident in at
  least one tier, some tier answers for the key with the new value, and the key is
  resident in exactly one tier when it was resident in no tier before the call. Whatever
  \<^verbatim>\<open>Set\<close> returns, no key that was resident in the disk store or in the remote store has
  left that store. (Nothing is said of the copies in the memory store: the eviction that
  \<^verbatim>\<open>Set\<close> runs takes entries out of it.)
\<close>

theorem set_places_key:
  assumes "keys_agree c"
  shows "\<exists>err c'. cache_Set key val c = Some (err, c') \<and>
           (err = None \<longrightarrow>
              tiers_holding key c' \<noteq> [] \<and>
              (\<exists>t e. store_Get t key c' = Inr e \<and> Value e = val) \<and>
              (tiers_holding key c = [] \<longrightarrow> length (tiers_holding key c') = 1)) \<and>
           (\<forall>k. (resident DiskTier k c \<longrightarrow> resident DiskTier k c') \<and>
                (resident RemoteTier k c \<longrightarrow> resident RemoteTier k c'))"
proof -
  from cache_Set_outcome [OF assms, of key val] obtain err c' t where
    res: "cache_Set key val c = Some (err, c')"
    and ok: "err = None \<longrightarrow>
              resident t key c' \<and>
              (isl (store_Get MemoryTier key c) \<longrightarrow>
                 (\<forall>t'. t' \<noteq> t \<longrightarrow> store_Get t' key c' = store_Get t' key c))"
    by blast
  have "tiers_holding key c' \<noteq> [] \<and>
        (\<exists>t e. store_Get t key c' = Inr e \<and> Value e = val) \<and>
        (tiers_holding key c = [] \<longrightarrow> length (tiers_holding key c') = 1)"
    if "err = None"
  proof (intro conjI impI)
    from that ok show "tiers_holding key c' \<noteq> []"
      using tiers_holding_nonempty [of t key c'] by blast
    from that res cache_Set_value [OF assms, of key val c']
    show "\<exists>t e. store_Get t key c' = Inr e \<and> Value e = val" by simp
    assume empty: "tiers_holding key c = []"
    from that ok tiers_holding_memory [OF empty]
    have "resident t key c'"
      and "\<And>t'. t' \<noteq> t \<Longrightarrow> store_Get t' key c' = store_Get t' key c"
      by auto
    then show "length (tiers_holding key c') = 1"
      using empty by (rule tiers_holding_one)
  qed
  moreover have "\<forall>k. (resident DiskTier k c \<longrightarrow> resident DiskTier k c') \<and>
                     (resident RemoteTier k c \<longrightarrow> resident RemoteTier k c')"
    using cache_Set_keeps_colder [OF assms res] by blast
  ultimately show ?thesis using res by blast
qed

text \<open>
  The amended claim at four calls: a key new to a fresh cache lands on disk; a second
  \<^verbatim>\<open>Set\<close> of that key lands in the memory store and the disk store keeps its copy; a \<^verbatim>\<open>Set\<close>
  that ends in the remote store leaves the key that store held; and, with capacities 5
  and 40, a \<^verbatim>\<open>Set\<close> of six bytes for a key the memory store holds evicts that copy and
  leaves the key on disk alone.
\<close>

theorem set_places_key_witness:
  "(keys_agree (simulated_cache 2 10) \<and>
    tiers_holding ''a'' (simulated_cache 2 10) = [] \<and>
    (\<exists>c'. cache_Set ''a'' ''xxx'' (simulated_cache 2 10) = Some (None, c') \<and>
          tiers_holding ''a'' c' = [DiskTier] \<and> length (tiers_holding ''a'' c') = 1 \<and>
          (\<exists>t e. store_Get t ''a'' c' = Inr e \<and> Value e = ''xxx''))) \<and>
   (keys_agree (snd (the (cache_Set ''a'' ''xxx'' (simulated_cache 2 10)))) \<and>
    resident DiskTier ''a'' (snd (the (cache_Set ''a'' ''xxx'' (simulated_cache 2 10)))) \<and>
    (\<exists>c'. cache_Set ''a'' ''x'' (snd (the (cache_Set ''a'' ''xxx'' (simulated_cache 2 10))))
            = Some (None, c') \<and>
          resident MemoryTier ''a'' c' \<and> resident DiskTier ''a'' c')) \<and>
   (keys_agree remote_only_cache \<and>
    resident RemoteTier ''r'' remote_only_cache \<and>
    (\<exists>c'. cache_Set ''b'' ''y'' remote_only_cache = Some (None, c') \<and>
          resident RemoteTier ''b'' c' \<and> resident RemoteTier ''r'' c')) \<and>
   (keys_agree (snd (the (cache_Set ''a'' ''xxx'' (simulated_cache 5 40)))) \<and>
    tiers_holding ''a'' (snd (the (cache_Set ''a'' ''xxx'' (simulated_cache 5 40))))
      = [MemoryTier] \<and>
    (\<exists>c'. cache_Set ''a'' ''yyyyyy'' (snd (the (cache_Set ''a'' ''xxx'' (simulated_cache 5 40))))
            = Some (None, c') \<and>
          tiers_holding ''a'' c' = [DiskTier] \<and> tiers_holding ''a'' c' \<noteq> []))"
proof (intro conjI)
  let ?c0 = "simulated_cache 2 10"
  let ?c1 = "snd (the (cache_Set ''a'' ''xxx'' ?c0))"
  let ?c5 = "snd (the (cache_Set ''a'' ''xxx'' (simulated_cache 5 40)))"
  have ka: "keys_agree ?c0"
    by (simp add: keys_agree_def eval_defs)
  have res: "fst (the (cache_Set ''a'' ''xxx'' ?c0)) = None"
            "tiers_holding ''a'' ?c1 = [DiskTier]"
            "tiers_holding ''a'' ?c0 = []"
    by (simp_all add: eval_defs tiers_holding_def resident_def)
  show "keys_agree ?c0" by (rule ka)
  show "tiers_holding ''a'' ?c0 = []" by (rule res)
  from set_places_key [OF ka, of "''a''" "''xxx''"] res
  show "\<exists>c'. cache_Set ''a'' ''xxx'' ?c0 = Some (None, c') \<and>
          tiers_holding ''a'' c' = [DiskTier] \<and> length (tiers_holding ''a'' c') = 1 \<and>
          (\<exists>t e. store_Get t ''a'' c' = Inr e \<and> Value e = ''xxx'')"
    by clarsimp
  have ka1: "keys_agree ?c1"
    by (simp add: keys_agree_def eval_defs)
  have res1: "resident DiskTier ''a'' ?c1"
             "fst (the (cache_Set ''a'' ''x'' ?c1)) = None"
             "resident MemoryTier ''a'' (snd (the (cache_Set ''a'' ''x'' ?c1)))"
    by (simp_all add: eval_defs resident_def)
  show "keys_agree ?c1" by (rule ka1)
  show "resident DiskTier ''a'' ?c1" by (rule res1)
  from set_places_key [OF ka1, of "''a''" "''x''"] res1
  show "\<exists>c'. cache_Set ''a'' ''x'' ?c1 = Some (None, c') \<and>
          resident MemoryTier ''a'' c' \<and> resident DiskTier ''a'' c'"
    by auto
  have ka2: "keys_agree remote_only_cache"
    by (simp add: keys_agree_def remote_only_cache_def eval_defs)
  have res2: "resident RemoteTier ''r'' remote_only_cache"
             "fst (the (cache_Set ''b'' ''y'' remote_only_cache)) = None"
             "resident RemoteTier ''b'' (snd (the (cache_Set ''b'' ''y'' remote_only_cache)))"
    by (simp_all add: remote_only_cache_def eval_defs resident_def)
  show "keys_agree remote_only_cache" by (rule ka2)
  show "resident RemoteTier ''r'' remote_only_cache" by (rule res2)
  from set_places_key [OF ka2, of "''b''" "''y''"] res2
  show "\<exists>c'. cache_Set ''b'' ''y'' remote_only_cache = Some (None, c') \<and>
          resident RemoteTier ''b'' c' \<and> resident RemoteTier ''r'' c'"
    by auto
  have ka5: "keys_agree ?c5"
    by (simp add: keys_agree_def eval_defs)
  have res5: "tiers_holding ''a'' ?c5 = [MemoryTier]"
             "fst (the (cache_Set ''a'' ''yyyyyy'' ?c5)) = None"
             "tiers_holding ''a'' (snd (the (cache_Set ''a'' ''yyyyyy'' ?c5))) = [DiskTier]"
    by (simp_all add: eval_defs tiers_holding_def resident_def)
  show "keys_agree ?c5" by (rule ka5)
  show "tiers_holding ''a'' ?c5 = [MemoryTier]" by (rule res5)
  from set_places_key [OF ka5, of "''a''" "''yyyyyy''"] res5
  show "\<exists>c'. cache_Set ''a'' ''yyyyyy'' ?c5 = Some (None, c') \<and>
          tiers_holding ''a'' c' = [DiskTier] \<and> tiers_holding ''a'' c' \<noteq> []"
    by auto
qed

subsection \<open>The errors of set\<close>



subsection \<open>Get on a colder hit\<close>

lemma cache_Get_colder_hit:
  assumes "isl (store_Get MemoryTier key c)"
    and "store_Get DiskTier key c = Inr entry \<or>
         (isl (store_Get DiskTier key c) \<and> store_Get RemoteTier key c = Inr entry)"
  shows "cache_Get key c =
           map_option (\<lambda>c'. (Inr (Value entry), c'))
             (promoteToMemory (touch (clock c (ticks c)) entry)
                (c\<lparr>statsHits := statsHits c + 1, ticks := Suc (ticks c)\<rparr>))"
proof -
  from assms(1) obtain err where m: "store_Get MemoryTier key c = Inl err"
    by (cases "store_Get MemoryTier key c") auto
  from assms(2) show ?thesis
  proof
    assume "store_Get DiskTier key c = Inr entry"
    with m show ?thesis
      by (simp add: cache_Get_def time_Now_def split: option.splits)
  next
    assume "isl (store_Get DiskTier key c) \<and> store_Get RemoteTier key c = Inr entry"
    then obtain err' where "store_Get DiskTier key c = Inl err'"
      and "store_Get RemoteTier key c = Inr entry"
      by (cases "store_Get DiskTier key c") auto
    with m show ?thesis
      by (simp add: cache_Get_def time_Now_def split: option.splits)
  qed
qed

lemma keys_agree_stats:
  "keys_agree (c\<lparr>statsHits := h, ticks := n\<rparr>) = keys_agree c"
  by (simp add: keys_agree_def)

subsection \<open>A hit in the remote store\<close>

lemma remote_hit_promoted:
  assumes miss: "isl (store_Get MemoryTier key c)"
    and dmiss: "isl (store_Get DiskTier key c)"
    and hit: "store_Get RemoteTier key c = Inr entry"
    and room: "store_GetUsage MemoryTier c \<le> store_GetCapacity MemoryTier c"
  shows "\<exists>c'. cache_Get key c = Some (Inr (Value entry), c') \<and>
           store_Get MemoryTier key c' = Inr (touch (clock c (ticks c)) entry) \<and>
           Size (touch (clock c (ticks c)) entry) = 0 \<and>
           store_GetUsage MemoryTier c' = store_GetUsage MemoryTier c"
proof -
  let ?c1 = "c\<lparr>statsHits := statsHits c + 1, ticks := Suc (ticks c)\<rparr>"
  let ?e = "touch (clock c (ticks c)) entry"
  from hit have e: "Key entry = key" "Size entry = 0"
    using RemoteStore_Get_hit [of "remoteStore c" key entry] by (simp_all add: store_simps)
  then have e': "Key ?e = key" "Size ?e = 0" by (simp_all add: touch_def)
  from miss have none: "map_of (m_items (memoryStore c)) key = None"
    by (auto simp: store_simps MemoryStore_Get_def split: option.splits)
  from room e' have "promoteToMemory ?e ?c1 = Some (snd (store_Set MemoryTier ?e ?c1))"
    by (simp add: promoteToMemory_def store_simps MemoryStore_GetUsage_def
        MemoryStore_GetCapacity_def)
  with cache_Get_colder_hit [OF miss disjI2, of entry] dmiss hit
  have get: "cache_Get key c = Some (Inr (Value entry), snd (store_Set MemoryTier ?e ?c1))"
    by simp
  from room e' none have set:
    "MemoryStore_Set (memoryStore c) ?e =
       (None, (memoryStore c)\<lparr>m_items := AList.update key ?e (m_items (memoryStore c)),
                                m_usage := m_usage (memoryStore c)\<rparr>)"
    by (simp add: MemoryStore_Set_def Let_def store_simps MemoryStore_GetUsage_def
        MemoryStore_GetCapacity_def)
  then have "store_Get MemoryTier key (snd (store_Set MemoryTier ?e ?c1)) = Inr ?e"
    "store_GetUsage MemoryTier (snd (store_Set MemoryTier ?e ?c1)) = store_GetUsage MemoryTier c"
    by (simp_all add: store_simps MemoryStore_Get_def MemoryStore_GetUsage_def
        AList.update_conv')
  with get e' show ?thesis by simp
qed

text \<open>
  Claim C10: an entry that \<^verbatim>\<open>RemoteStore.Get\<close> returns has size 0, frequency 0 and the zero
  time as its last access, with the stored value as payload, whatever the length of the
  value. A \<^verbatim>\<open>Get\<close> of the coordinator that hits the remote store (the memory store not
  being over its capacity) therefore writes into the memory store an entry of size 0 and
  leaves the usage of the memory store as it was.
\<close>

theorem remote_hit_is_charged_nothing:
  "(RemoteStore_Get s key = Inr entry \<longrightarrow>
      Key entry = key \<and> Size entry = 0 \<and> Frequency entry = 0 \<and>
      LastAccess entry = zero_time \<and>
      map_of (if simulate s then simulateMap s else r_db (client s)) key = Some (Value entry)) \<and>
   (isl (store_Get MemoryTier key c) \<and> isl (store_Get DiskTier key c) \<and>
    store_Get RemoteTier key c = Inr entry \<and>
    store_GetUsage MemoryTier c \<le> store_GetCapacity MemoryTier c \<longrightarrow>
      (\<exists>c'. cache_Get key c = Some (Inr (Value entry), c') \<and>
            store_Get MemoryTier key c' = Inr (touch (clock c (ticks c)) entry) \<and>
            Size (touch (clock c (ticks c)) entry) = 0 \<and>
            store_GetUsage MemoryTier c' = store_GetUsage MemoryTier c))"
  using RemoteStore_Get_hit [of s key entry] remote_hit_promoted [of key c entry]
  by blast

text \<open>
  Claim C10 for an 11-byte value and a memory store of capacity 0: the entry is admitted
  and the usage stays 0.
\<close>

theorem remote_hit_is_charged_nothing_witness:
  "RemoteStore_Get (remoteStore remote_only_cache) ''r'' =
     Inr \<lparr>Key = ''r'', Value = ''remotevalue'', Size = 0, LastAccess = 0, Frequency = 0\<rparr> \<and>
   isl (store_Get MemoryTier ''r'' remote_only_cache) \<and>
   isl (store_Get DiskTier ''r'' remote_only_cache) \<and>
   store_GetUsage MemoryTier remote_only_cache \<le> store_GetCapacity MemoryTier remote_only_cache \<and>
   (\<exists>c'. cache_Get ''r'' remote_only_cache = Some (Inr ''remotevalue'', c') \<and>
         store_Get MemoryTier ''r'' c' =
           Inr \<lparr>Key = ''r'', Value = ''remotevalue'', Size = 0, LastAccess = 1, Frequency = 1\<rparr> \<and>
         store_GetUsage MemoryTier c' = 0)"
proof -
  let ?e = "\<lparr>Key = ''r'', Value = ''remotevalue'', Size = 0, LastAccess = 0, Frequency = (0::int)\<rparr>"
  have g: "RemoteStore_Get (remoteStore remote_only_cache) ''r'' = Inr ?e"
    by (simp add: remote_only_cache_def eval_defs)
  have h: "isl (store_Get MemoryTier ''r'' remote_only_cache) \<and>
           isl (store_Get DiskTier ''r'' remote_only_cache) \<and>
           store_Get RemoteTier ''r'' remote_only_cache = Inr ?e \<and>
           store_GetUsage MemoryTier remote_only_cache
             \<le> store_GetCapacity MemoryTier remote_only_cache"
    by (simp add: remote_only_cache_def eval_defs)
  have u: "store_GetUsage MemoryTier remote_only_cache = 0"
          "clock remote_only_cache (ticks remote_only_cache) = 1"
    by (simp_all add: remote_only_cache_def eval_defs)
  from remote_hit_is_charged_nothing
         [of "remoteStore remote_only_cache" "''r''" ?e remote_only_cache] g h u
  show ?thesis by (simp add: touch_def)
qed

subsection \<open>Delete\<close>

lemma cache_Delete_result:
  "fst (cache_Delete key c) = fst (store_Delete RemoteTier key c)"
  by (simp add: cache_Delete_def Let_def store_simps case_prod_beta)

lemma cache_Delete_state:
  "snd (cache_Delete key c) =
     c\<lparr>memoryStore := snd (MemoryStore_Delete (memoryStore c) key),
       diskStore := snd (DiskStore_Delete (diskStore c) key),
       remoteStore := snd (RemoteStore_Delete (remoteStore c) key)\<rparr>"
  by (simp add: cache_Delete_def Let_def store_simps split: prod.splits)

text \<open>
  Claim C6, as stated: \<^verbatim>\<open>Delete\<close> surfaces the error of any tier. With a scratch directory
  that has lost its write permission the disk store's \<^verbatim>\<open>Delete\<close> returns the error of
  \<^verbatim>\<open>os.Remove\<close>, and the coordinator returns \<^verbatim>\<open>nil\<close>: it drops the results of the memory
  store and of the disk store.
\<close>

theorem delete_discards_local_error_counterexample:
  "fst (store_Delete DiskTier ''a'' (snd (store_Delete MemoryTier ''a'' readonly_cache)))
     = Some (ErrOS ''permission denied'') \<and>
   fst (cache_Delete ''a'' readonly_cache) = None"
  by (simp add: readonly_cache_def eval_defs)

text \<open>
  Claim C6, amended: \<^verbatim>\<open>Delete\<close> calls the \<^verbatim>\<open>Delete\<close> of all three stores and returns the result
  of the remote store alone. Afterwards the key is not in the memory store, not in the
  disk store unless the directory is read-only, and not in the remote store when the
  result is \<^verbatim>\<open>nil\<close>. A key that no tier holds is no error: with a simulated or reachable
  remote store the result is \<^verbatim>\<open>nil\<close> and the cache is unchanged.
\<close>

theorem delete_returns_remote_result:
  "fst (cache_Delete key c) = fst (store_Delete RemoteTier key c) \<and>
   \<not> resident MemoryTier key (snd (cache_Delete key c)) \<and>
   (\<not> d_readonly (diskStore c) \<longrightarrow> \<not> resident DiskTier key (snd (cache_Delete key c))) \<and>
   (fst (cache_Delete key c) = None \<longrightarrow> \<not> resident RemoteTier key (snd (cache_Delete key c))) \<and>
   (\<not> resident MemoryTier key c \<and> \<not> resident DiskTier key c \<and> \<not> resident RemoteTier key c \<and>
    (simulate (remoteStore c) \<or> r_fault (client (remoteStore c)) = None) \<longrightarrow>
      cache_Delete key c = (None, c))"
proof (intro conjI impI)
  show "fst (cache_Delete key c) = fst (store_Delete RemoteTier key c)"
    by (rule cache_Delete_result)
  show "\<not> resident MemoryTier key (snd (cache_Delete key c))"
    using MemoryStore_Get_Delete_same [of "memoryStore c" key]
    by (simp add: resident_def cache_Delete_state store_simps)
  show "\<not> resident DiskTier key (snd (cache_Delete key c))" if "\<not> d_readonly (diskStore c)"
    using DiskStore_Get_Delete_same [OF that, of key]
    by (simp add: resident_def cache_Delete_state store_simps)
  show "\<not> resident RemoteTier key (snd (cache_Delete key c))"
    if "fst (cache_Delete key c) = None"
  proof -
    from that have "fst (RemoteStore_Delete (remoteStore c) key) = None"
      by (simp add: cache_Delete_result store_simps split: prod.splits)
    from RemoteStore_Get_Delete_same [OF this] show ?thesis
      by (simp add: resident_def cache_Delete_state store_simps)
  qed
  show "cache_Delete key c = (None, c)"
    if "\<not> resident MemoryTier key c \<and> \<not> resident DiskTier key c \<and>
        \<not> resident RemoteTier key c \<and>
        (simulate (remoteStore c) \<or> r_fault (client (remoteStore c)) = None)"
  proof -
    from that have
      "MemoryStore_Delete (memoryStore c) key = (None, memoryStore c)"
      "DiskStore_Delete (diskStore c) key = (None, diskStore c)"
      "RemoteStore_Delete (remoteStore c) key = (None, remoteStore c)"
      by (simp_all add: resident_def store_simps MemoryStore_Delete_absent
          DiskStore_Delete_absent RemoteStore_Delete_absent)
    then show ?thesis
      by (simp add: cache_Delete_def Let_def store_simps)
  qed
qed

text \<open>
  The amended claim at a fresh cache (nothing to delete) and at the cache with the
  read-only directory (the file stays, the result is \<^verbatim>\<open>nil\<close>).
\<close>

theorem delete_returns_remote_result_witness:
  "\<not> d_readonly (diskStore (simulated_cache 20 40)) \<and>
   cache_Delete ''a'' (simulated_cache 20 40) = (None, simulated_cache 20 40) \<and>
   d_readonly (diskStore readonly_cache) \<and>
   fst (cache_Delete ''a'' readonly_cache) = None \<and>
   resident DiskTier ''a'' (snd (cache_Delete ''a'' readonly_cache)) \<and>
   \<not> resident MemoryTier ''a'' (snd (cache_Delete ''a'' readonly_cache)) \<and>
   \<not> resident RemoteTier ''a'' (snd (cache_Delete ''a'' readonly_cache))"
proof -
  have h: "\<not> d_readonly (diskStore (simulated_cache 20 40))"
    "\<not> resident MemoryTier ''a'' (simulated_cache 20 40)"
    "\<not> resident DiskTier ''a'' (simulated_cache 20 40)"
    "\<not> resident RemoteTier ''a'' (simulated_cache 20 40)"
    "simulate (remoteStore (simulated_cache 20 40))"
    "d_readonly (diskStore readonly_cache)"
    "fst (store_Delete RemoteTier ''a'' readonly_cache) = None"
    "resident DiskTier ''a'' (snd (cache_Delete ''a'' readonly_cache))"
    by (simp_all add: readonly_cache_def resident_def eval_defs)
  from delete_returns_remote_result [of "''a''" "simulated_cache 20 40"]
       delete_returns_remote_result [of "''a''" readonly_cache] h
  show ?thesis by simp
qed

subsection \<open>Sums over an association list\<close>

lemma sum_update:
  fixes f :: "'k \<times> 'v \<Rightarrow> int"
  assumes "distinct (map fst xs)"
  shows "sum_list (map f (AList.update k v xs)) =
           sum_list (map f xs) + f (k, v) -
           (case map_of xs k of None \<Rightarrow> 0 | Some v' \<Rightarrow> f (k, v'))"
  using assms
proof (induction xs)
  case Nil
  then show ?case by simp
next
  case (Cons p xs)
  obtain k' v' where p: "p = (k', v')" by (cases p)
  show ?case
  proof (cases "k' = k")
    case True
    with Cons.prems p have "k \<notin> fst ` set xs" by auto
    then have "map_of xs k = None" by (simp add: map_of_eq_None_iff)
    with True p show ?thesis by simp
  next
    case False
    with Cons p show ?thesis by simp
  qed
qed

lemma sum_delete:
  fixes f :: "'k \<times> 'v \<Rightarrow> int"
  assumes "distinct (map fst xs)"
  shows "sum_list (map f (AList.delete k xs)) =
           sum_list (map f xs) -
           (case map_of xs k of None \<Rightarrow> 0 | Some v' \<Rightarrow> f (k, v'))"
  using assms
proof (induction xs)
  case Nil
  then show ?case by (simp add: AList.delete_eq)
next
  case (Cons p xs)
  obtain k' v' where p: "p = (k', v')" by (cases p)
  show ?case
  proof (cases "k' = k")
    case True
    with Cons.prems p have "k \<notin> fst ` set xs" by auto
    then have "AList.delete k xs = xs" by simp
    with True p show ?thesis by (simp add: AList.delete_eq)
  next
    case False
    with Cons p show ?thesis by (simp add: AList.delete_eq)
  qed
qed

lemma sum_sizes_nonneg:
  "\<forall>(k, e) \<in> set xs. 0 \<le> Size e \<Longrightarrow> 0 \<le> sum_list (map (\<lambda>p. Size (snd p)) xs)"
  by (induction xs) auto

subsection \<open>The stores keep their invariants\<close>

lemma mem_inv_usage: "mem_inv s \<Longrightarrow> 0 \<le> m_usage s \<and> m_usage s \<le> m_capacity s"
  using sum_sizes_nonneg [of "m_items s"] by (auto simp: mem_inv_def)

lemma set_update_subset:
  "set (AList.update k v xs) \<subseteq> insert (k, v) (set xs)"
  by (induction xs) auto

lemma mem_inv_Set:
  assumes "mem_inv s" and "0 \<le> Size e"
  shows "mem_inv (snd (MemoryStore_Set s e))"
proof (cases "fst (MemoryStore_Set s e)")
  case (Some err)
  then have "fst (MemoryStore_Set s e) \<noteq> None" by simp
  from MemoryStore_Set_failed [OF this] assms(1) show ?thesis by simp
next
  case None
  let ?new = "m_usage s + Size e -
                (case map_of (m_items s) (Key e) of None \<Rightarrow> 0 | Some v' \<Rightarrow> Size v')"
  have nu: "(case map_of (m_items s) (Key e) of
               Some existing \<Rightarrow> m_usage s + Size e - Size existing
             | None \<Rightarrow> m_usage s + Size e) = ?new"
    by (simp split: option.splits)
  from None have le: "?new \<le> m_capacity s"
    by (simp add: MemoryStore_Set_def Let_def nu split: if_splits)
  from None have st: "snd (MemoryStore_Set s e) =
      s\<lparr>m_items := AList.update (Key e) e (m_items s), m_usage := ?new\<rparr>"
    by (simp add: MemoryStore_Set_def Let_def nu split: if_splits)
  from assms(1) have d: "distinct (map fst (m_items s))" by (simp add: mem_inv_def)
  have 1: "distinct (map fst (AList.update (Key e) e (m_items s)))"
    using d by (rule AList.distinct_update)
  have 2: "\<forall>(k, x) \<in> set (AList.update (Key e) e (m_items s)). Key x = k \<and> 0 \<le> Size x"
    using assms set_update_subset [of "Key e" e "m_items s"]
    by (auto simp: mem_inv_def)
  have 3: "?new = sum_list (map (\<lambda>p. Size (snd p)) (AList.update (Key e) e (m_items s)))"
    using assms(1) sum_update [OF d, of "\<lambda>p. Size (snd p)" "Key e" e]
    by (simp add: mem_inv_def split: option.splits)
  from 1 2 3 le show ?thesis by (simp add: st mem_inv_def)
qed

lemma mem_inv_Delete:
  assumes "mem_inv s"
  shows "mem_inv (snd (MemoryStore_Delete s k))"
proof (cases "map_of (m_items s) k")
  case None
  with assms show ?thesis by (simp add: MemoryStore_Delete_def)
next
  case (Some e)
  from assms have d: "distinct (map fst (m_items s))" by (simp add: mem_inv_def)
  from Some have "(k, e) \<in> set (m_items s)" by (rule map_of_SomeD)
  with assms have sz: "0 \<le> Size e" by (auto simp: mem_inv_def)
  have st: "snd (MemoryStore_Delete s k) =
      s\<lparr>m_usage := m_usage s - Size e, m_items := AList.delete k (m_items s)\<rparr>"
    using Some by (simp add: MemoryStore_Delete_def)
  have 1: "distinct (map fst (AList.delete k (m_items s)))"
    using d by (rule AList.distinct_delete)
  have 2: "\<forall>(k', x) \<in> set (AList.delete k (m_items s)). Key x = k' \<and> 0 \<le> Size x"
    using assms by (auto simp: mem_inv_def AList.delete_eq)
  have 3: "m_usage s - Size e = sum_list (map (\<lambda>p. Size (snd p)) (AList.delete k (m_items s)))"
    using assms Some sum_delete [OF d, of "\<lambda>p. Size (snd p)" k]
    by (simp add: mem_inv_def)
  from assms sz have 4: "m_usage s - Size e \<le> m_capacity s" by (simp add: mem_inv_def)
  from 1 2 3 4 show ?thesis by (simp add: st mem_inv_def)
qed

lemma mem_inv_Clear: "mem_inv s \<Longrightarrow> mem_inv (snd (MemoryStore_Clear s))"
  using mem_inv_usage [of s] by (simp add: MemoryStore_Clear_def mem_inv_def)

lemma mem_inv_touch:
  assumes "mem_inv s" and "map_of (m_items s) key = Some entry"
  shows "mem_inv (s\<lparr>m_items := AList.update key (touch now entry) (m_items s)\<rparr>)"
proof -
  from assms have d: "distinct (map fst (m_items s))" by (simp add: mem_inv_def)
  from assms(2) have "(key, entry) \<in> set (m_items s)" by (rule map_of_SomeD)
  with assms(1) have e: "Key entry = key" "0 \<le> Size entry" by (auto simp: mem_inv_def)
  have 1: "distinct (map fst (AList.update key (touch now entry) (m_items s)))"
    using d by (rule AList.distinct_update)
  have 2: "\<forall>(k, x) \<in> set (AList.update key (touch now entry) (m_items s)).
             Key x = k \<and> 0 \<le> Size x"
    using assms(1) e set_update_subset [of key "touch now entry" "m_items s"]
    by (auto simp: mem_inv_def touch_def)
  have 3: "sum_list (map (\<lambda>p. Size (snd p)) (AList.update key (touch now entry) (m_items s)))
             = sum_list (map (\<lambda>p. Size (snd p)) (m_items s))"
    using assms(2) sum_update [OF d, of "\<lambda>p. Size (snd p)" key "touch now entry"]
    by (simp add: touch_def)
  from assms(1) 1 2 3 show ?thesis by (simp add: mem_inv_def)
qed

lemma disk_inv_Set:
  assumes "disk_inv s" and "0 \<le> Size e"
  shows "disk_inv (snd (DiskStore_Set s e))"
  using assms set_update_subset [of "Key e" "\<lparr>f_entry = e, f_size = d_gob_len s e\<rparr>" "d_files s"]
  by (auto simp: disk_inv_def DiskStore_Set_def)

lemma disk_inv_Delete: "disk_inv s \<Longrightarrow> disk_inv (snd (DiskStore_Delete s k))"
  by (auto simp: disk_inv_def DiskStore_Delete_def Let_def AList.delete_eq
      split: option.splits)

lemma disk_inv_Clear: "disk_inv s \<Longrightarrow> disk_inv (snd (DiskStore_Clear s))"
  by (auto simp: disk_inv_def DiskStore_Clear_def)

lemma cache_inv_store_Set:
  "cache_inv c \<Longrightarrow> 0 \<le> Size e \<Longrightarrow> cache_inv (snd (store_Set t e c))"
  by (cases t)
     (simp_all add: cache_inv_def store_simps case_prod_beta mem_inv_Set disk_inv_Set)

lemma cache_inv_store_Delete:
  "cache_inv c \<Longrightarrow> cache_inv (snd (store_Delete t k c))"
  by (cases t)
     (simp_all add: cache_inv_def store_simps case_prod_beta mem_inv_Delete disk_inv_Delete)

lemma cache_inv_store_Clear:
  "cache_inv c \<Longrightarrow> cache_inv (snd (store_Clear t c))"
  by (cases t)
     (simp_all add: cache_inv_def store_simps case_prod_beta mem_inv_Clear disk_inv_Clear)

lemma cache_inv_Get_size:
  assumes "cache_inv c" and "store_Get t k c = Inr e"
  shows "0 \<le> Size e"
proof (cases t)
  case MemoryTier
  with assms(2) have "map_of (m_items (memoryStore c)) k = Some e"
    by (simp add: store_simps MemoryStore_Get_def split: option.splits)
  then have "(k, e) \<in> set (m_items (memoryStore c))" by (rule map_of_SomeD)
  with assms(1) show ?thesis by (auto simp: cache_inv_def mem_inv_def)
next
  case DiskTier
  with assms(2) obtain f where "map_of (d_files (diskStore c)) k = Some f" "e = f_entry f"
    by (auto simp: store_simps DiskStore_Get_def os_Open_def split: option.splits)
  then have "(k, f) \<in> set (d_files (diskStore c))" "e = f_entry f"
    by (auto dest: map_of_SomeD)
  with assms(1) show ?thesis by (auto simp: cache_inv_def disk_inv_def)
next
  case RemoteTier
  with assms(2) RemoteStore_Get_hit [of "remoteStore c" k e] show ?thesis
    by (simp add: store_simps)
qed

lemma cache_inv_ticks: "cache_inv (c\<lparr>ticks := n\<rparr>) = cache_inv c"
  by (simp add: cache_inv_def)

lemma cache_inv_keys_agree: "cache_inv c \<Longrightarrow> keys_agree c"
  by (auto simp: cache_inv_def mem_inv_def keys_agree_def)

lemma cache_inv_promoteEvictedEntry:
  "cache_inv c \<Longrightarrow> 0 \<le> Size e \<Longrightarrow> cache_inv (promoteEvictedEntry e c)"
  using promoteEvictedEntry_cases [of e c]
  by (auto simp: cache_inv_store_Set)

lemma cache_inv_evict_body:
  assumes "cache_inv c" and "evict_body t c = Inl c' \<or> evict_body t c = Inr c'"
  shows "cache_inv c'"
proof -
  let ?c1 = "c\<lparr>ticks := Suc (ticks c)\<rparr>"
  have 1: "cache_inv ?c1" using assms(1) by (simp add: cache_inv_ticks)
  have 2: "cache_inv (snd (store_Delete t k ?c1))" for k
    using 1 by (rule cache_inv_store_Delete)
  have 3: "cache_inv (promoteEvictedEntry e (snd (store_Delete t k ?c1)))"
    if "store_Get t k ?c1 = Inr e" for k e
    using 2 cache_inv_Get_size [OF 1 that] by (rule cache_inv_promoteEvictedEntry)
  from assms(2) have
    "c' = c \<or> c' = ?c1 \<or> (\<exists>k. c' = snd (store_Delete t k ?c1)) \<or>
     (\<exists>k e. store_Get t k ?c1 = Inr e \<and>
            c' = promoteEvictedEntry e (snd (store_Delete t k ?c1)))"
    by (auto simp: evict_body_def Let_def time_Now_def split: if_splits sum.splits)
  with assms(1) 1 2 3 show ?thesis by blast
qed

lemma cache_inv_evict:
  assumes "evict t req c = Some (b, c')" and "cache_inv c"
  shows "cache_inv c'"
proof -
  have "cache_inv c' \<and> (b \<longrightarrow> req \<le> store_GetCapacity t c' - store_GetUsage t c')"
  proof (rule evict_rule [where I = cache_inv, OF assms])
    fix x x'
    assume "cache_inv x" and "evict_body t x = Inl x' \<or> evict_body t x = Inr x'"
    then show "cache_inv x'" by (rule cache_inv_evict_body)
  qed
  then show ?thesis ..
qed


subsection \<open>The operations of the coordinator keep the invariant\<close>

lemma cache_inv_stats:
  "cache_inv (c\<lparr>statsHits := h\<rparr>) = cache_inv c"
  "cache_inv (c\<lparr>statsMisses := m\<rparr>) = cache_inv c"
  by (simp_all add: cache_inv_def)

lemma cache_inv_promoteToMemory:
  assumes "cache_inv c" and "0 \<le> Size e"
  shows "\<exists>c'. promoteToMemory e c = Some c' \<and> cache_inv c'"
proof (cases "store_GetUsage MemoryTier c + Size e > store_GetCapacity MemoryTier c")
  case False
  then have "promoteToMemory e c = Some (snd (store_Set MemoryTier e c))"
    by (simp add: promoteToMemory_def)
  with cache_inv_store_Set [OF assms] show ?thesis by simp
next
  case True
  from evict_Memory [OF cache_inv_keys_agree [OF assms(1)], of "Size e"]
  obtain b c2 where ev: "evict MemoryTier (Size e) c = Some (b, c2)" by blast
  from cache_inv_evict [OF ev assms(1)] have "cache_inv c2" .
  then have "cache_inv (snd (store_Set MemoryTier e c2))"
    using assms(2) by (rule cache_inv_store_Set)
  moreover from True ev have "promoteToMemory e c = Some (snd (store_Set MemoryTier e c2))"
    by (simp add: promoteToMemory_def)
  ultimately show ?thesis by simp
qed

lemma cache_inv_cache_Get:
  assumes "cache_inv c"
  shows "\<exists>r c'. cache_Get key c = Some (r, c') \<and> cache_inv c'"
proof (cases "store_Get MemoryTier key c")
  case (Inr entry)
  then have m: "map_of (m_items (memoryStore c)) key = Some entry"
    by (simp add: store_simps MemoryStore_Get_def split: option.splits)
  from assms have "mem_inv (memoryStore c)" by (simp add: cache_inv_def)
  from mem_inv_touch [OF this m, of "clock c (ticks c)"] assms
  have "cache_inv (c\<lparr>statsHits := statsHits c + 1, ticks := Suc (ticks c),
          memoryStore := (memoryStore c)\<lparr>m_items :=
            AList.update key (touch (clock c (ticks c)) entry) (m_items (memoryStore c))\<rparr>\<rparr>)"
    by (simp add: cache_inv_def)
  with Inr show ?thesis by (simp add: cache_Get_def time_Now_def)
next
  case (Inl err)
  then have miss: "isl (store_Get MemoryTier key c)" by simp
  let ?c1 = "c\<lparr>statsHits := statsHits c + 1, ticks := Suc (ticks c)\<rparr>"
  have c1: "cache_inv ?c1" using assms by (simp add: cache_inv_def)
  have hit: "\<exists>r c'. cache_Get key c = Some (r, c') \<and> cache_inv c'"
    if h: "store_Get DiskTier key c = Inr entry \<or>
           (isl (store_Get DiskTier key c) \<and> store_Get RemoteTier key c = Inr entry)"
    for entry
  proof -
    from h obtain t where "store_Get t key c = Inr entry" by blast
    from cache_inv_Get_size [OF assms this]
    have "0 \<le> Size (touch (clock c (ticks c)) entry)" by (simp add: touch_def)
    from cache_inv_promoteToMemory [OF c1 this]
    obtain c' where "promoteToMemory (touch (clock c (ticks c)) entry) ?c1 = Some c'"
      and "cache_inv c'" by blast
    with cache_Get_colder_hit [OF miss h] show ?thesis by simp
  qed
  show ?thesis
  proof (cases "store_Get DiskTier key c")
    case (Inr entry)
    then show ?thesis using hit [of entry] by blast
  next
    case d: (Inl err2)
    show ?thesis
    proof (cases "store_Get RemoteTier key c")
      case (Inr entry)
      with d show ?thesis using hit [of entry] by simp
    next
      case r: (Inl err3)
      from Inl d r have "cache_Get key c =
          Some (Inl (ErrNew ''key not found''), c\<lparr>statsMisses := statsMisses c + 1\<rparr>)"
        by (simp add: cache_Get_def)
      with assms show ?thesis by (simp add: cache_inv_stats)
    qed
  qed
qed

lemma cache_inv_cache_Set:
  assumes "cache_inv c"
  shows "\<exists>err c'. cache_Set key val c = Some (err, c') \<and> cache_inv c'"
proof -
  let ?c0 = "c\<lparr>ticks := Suc (ticks c)\<rparr>"
  let ?e = "new_entry key val (clock c (ticks c))"
  from cache_Set_eq [OF cache_inv_keys_agree [OF assms], of val key]
  obtain b c2 where ev: "evict MemoryTier (int (length val)) ?c0 = Some (b, c2)"
    and eq: "cache_Set key val c =
             Some (if fst (store_Set MemoryTier ?e ?c0) = None
                   then store_Set MemoryTier ?e ?c0
                   else if b \<and> fst (store_Set MemoryTier ?e c2) = None
                   then store_Set MemoryTier ?e c2
                   else if fst (store_Set DiskTier ?e c2) = None
                   then store_Set DiskTier ?e c2
                   else store_Set RemoteTier ?e c2)"
    unfolding Let_def by blast
  have sz: "0 \<le> Size ?e" by (simp add: new_entry_def)
  have c0: "cache_inv ?c0" using assms by (simp add: cache_inv_ticks)
  from cache_inv_evict [OF ev c0] have c2: "cache_inv c2" .
  have s0: "cache_inv (snd (store_Set t ?e ?c0))" for t
    using c0 sz by (rule cache_inv_store_Set)
  have s2: "cache_inv (snd (store_Set t ?e c2))" for t
    using c2 sz by (rule cache_inv_store_Set)
  obtain r where r: "cache_Set key val c = Some r" using eq by blast
  with eq have "r = store_Set MemoryTier ?e ?c0 \<or> r = store_Set MemoryTier ?e c2 \<or>
                r = store_Set DiskTier ?e c2 \<or> r = store_Set RemoteTier ?e c2"
    by (auto split: if_splits)
  with s0 s2 have "cache_inv (snd r)" by blast
  with r show ?thesis by (cases r) auto
qed

lemma cache_inv_cache_Delete: "cache_inv c \<Longrightarrow> cache_inv (snd (cache_Delete key c))"
  by (simp add: cache_Delete_def Let_def cache_inv_store_Delete)

lemma cache_inv_cache_Clear: "cache_inv c \<Longrightarrow> cache_inv (snd (cache_Clear c))"
  by (simp add: cache_Clear_def Let_def cache_inv_store_Clear)

lemma cache_inv_apply_op:
  assumes "cache_inv c"
  shows "\<exists>c'. apply_op x c = Some c' \<and> cache_inv c'"
proof (cases x)
  case (OpSet key val)
  with cache_inv_cache_Set [OF assms, of key val] show ?thesis by auto
next
  case (OpGet key)
  with cache_inv_cache_Get [OF assms, of key] show ?thesis by auto
next
  case (OpDelete key)
  with cache_inv_cache_Delete [OF assms, of key] show ?thesis by simp
next
  case OpClear
  with cache_inv_cache_Clear [OF assms] show ?thesis by simp
qed

lemma cache_inv_run:
  "cache_inv c \<Longrightarrow> \<exists>c'. run ops c = Some c' \<and> cache_inv c'"
proof (induction ops arbitrary: c)
  case Nil
  then show ?case by simp
next
  case (Cons x xs)
  from cache_inv_apply_op [OF Cons.prems, of x]
  obtain c1 where "apply_op x c = Some c1" and "cache_inv c1" by blast
  with Cons.IH [of c1] show ?case by simp
qed

lemma cache_inv_New:
  assumes "0 \<le> memCap" and "0 \<le> diskCap"
    and "NewMultiTierCache memCap diskCap env_simulate server gob_len clk = Inr c"
  shows "cache_inv c"
  using assms
  by (auto simp: NewMultiTierCache_def cache_inv_def mem_inv_def disk_inv_def
      NewMemoryStore_def NewDiskStore_def split: sum.splits)

lemma simulated_usage_nonneg:
  "0 \<le> sum_list (map (\<lambda>kv. int (length (snd kv))) xs)"
  by (induction xs) auto

lemma cache_inv_bounds:
  assumes "cache_inv c"
  shows "0 \<le> store_GetUsage MemoryTier c \<and>
         store_GetUsage MemoryTier c \<le> store_GetCapacity MemoryTier c \<and>
         store_GetUsage DiskTier c \<le> store_GetCapacity DiskTier c"
  using assms mem_inv_usage [of "memoryStore c"]
  by (simp add: cache_inv_def disk_inv_def store_simps MemoryStore_GetUsage_def
      MemoryStore_GetCapacity_def DiskStore_GetUsage_def DiskStore_GetCapacity_def)

lemma remote_usage_nonneg:
  "simulate (remoteStore c) \<Longrightarrow> 0 \<le> store_GetUsage RemoteTier c"
  by (simp add: store_simps RemoteStore_GetUsage_def RemoteStore_GetMetrics_def
      simulated_usage_nonneg)

subsection \<open>Usage and capacity over a sequence of operations\<close>

text \<open>
  Claim C2, as stated: after every sequence of operations on a fresh cache each of the
  three tiers has \<open>0 \<le> usage \<le> capacity\<close>. \<^verbatim>\<open>RemoteStore.Set\<close> compares nothing with the
  capacity. On a fresh cache with capacities 0 and 0 and the simulated remote store, one
  \<^verbatim>\<open>Set\<close> of a value of 100 MiB + 1 bytes is refused by the memory store and by the disk
  store and accepted by the remote store, whose usage (the sum of the lengths of the
  stored values) is then 104857601, above its capacity of 104857600.
\<close>

theorem remote_usage_exceeds_capacity_counterexample:
  "(case run [OpSet ''big'' (replicate 104857601 (CHR ''x''))] (simulated_cache 0 0) of
      None \<Rightarrow> False
    | Some c \<Rightarrow>
        store_GetCapacity RemoteTier c = 104857600 \<and>
        store_GetUsage RemoteTier c = 104857601)"
  by (simp add: eval_defs)

text \<open>
  Claim C2, amended: on a cache constructed with capacities that are not negative, every
  sequence of \<^verbatim>\<open>Set\<close>, \<^verbatim>\<open>Get\<close>, \<^verbatim>\<open>Delete\<close> and \<^verbatim>\<open>Clear\<close> returns, and afterwards the memory
  store has \<open>0 \<le> usage \<le> capacity\<close>, the disk store has \<open>usage \<le> capacity\<close>, and the
  simulated remote store has \<open>0 \<le> usage\<close>. As the sequence is arbitrary, this holds
  after each of its operations.
\<close>

theorem usage_bounds_of_fast_and_local_tier:
  assumes "0 \<le> memCap" and "0 \<le> diskCap"
    and "NewMultiTierCache memCap diskCap env_simulate server gob_len clk = Inr c0"
  shows "\<exists>c. run ops c0 = Some c \<and>
           0 \<le> store_GetUsage MemoryTier c \<and>
           store_GetUsage MemoryTier c \<le> store_GetCapacity MemoryTier c \<and>
           store_GetUsage DiskTier c \<le> store_GetCapacity DiskTier c \<and>
           (simulate (remoteStore c) \<longrightarrow> 0 \<le> store_GetUsage RemoteTier c)"
proof -
  from assms have "cache_inv c0" by (rule cache_inv_New)
  from cache_inv_run [OF this, of ops]
  obtain c where r: "run ops c0 = Some c" and inv: "cache_inv c" by blast
  from cache_inv_bounds [OF inv] remote_usage_nonneg [of c] r show ?thesis by blast
qed

text \<open>
  The amended claim at the cache of the repository's eviction test (capacities 20 and
  40, simulated remote store), after the four \<^verbatim>\<open>Set\<close> of the test, a \<^verbatim>\<open>Get\<close> that promotes
  \<^verbatim>\<open>k1\<close> from the disk store, and a \<^verbatim>\<open>Delete\<close>.
\<close>

theorem usage_bounds_of_fast_and_local_tier_witness:
  "(0::int) \<le> 20 \<and> (0::int) \<le> 40 \<and>
   NewMultiTierCache 20 40 (Some ''true'') no_redis example_gob_len example_clock
     = Inr (simulated_cache 20 40) \<and>
   (\<exists>c. run [OpSet ''k1'' ''value1'', OpSet ''k2'' ''value2'', OpSet ''k3'' ''value3'',
              OpSet ''k4'' ''longvalue4'', OpGet ''k1'', OpDelete ''k2'']
             (simulated_cache 20 40) = Some c \<and>
        simulate (remoteStore c) \<and>
        0 \<le> store_GetUsage MemoryTier c \<and>
        store_GetUsage MemoryTier c \<le> store_GetCapacity MemoryTier c \<and>
        store_GetUsage DiskTier c \<le> store_GetCapacity DiskTier c \<and>
        0 \<le> store_GetUsage RemoteTier c)"
proof -
  let ?ops = "[OpSet ''k1'' ''value1'', OpSet ''k2'' ''value2'', OpSet ''k3'' ''value3'',
               OpSet ''k4'' ''longvalue4'', OpGet ''k1'', OpDelete ''k2'']"
  have new: "NewMultiTierCache 20 40 (Some ''true'') no_redis example_gob_len example_clock
               = Inr (simulated_cache 20 40)"
    by (simp add: NewMultiTierCache_def NewRemoteStore_def simulated_cache_def)
  have sim: "(case run ?ops (simulated_cache 20 40) of
                None \<Rightarrow> False | Some c \<Rightarrow> simulate (remoteStore c))"
    by (simp add: eval_defs)
  from usage_bounds_of_fast_and_local_tier [OF _ _ new, of ?ops]
  obtain c where "run ?ops (simulated_cache 20 40) = Some c"
    and "0 \<le> store_GetUsage MemoryTier c"
    and "store_GetUsage MemoryTier c \<le> store_GetCapacity MemoryTier c"
    and "store_GetUsage DiskTier c \<le> store_GetCapacity DiskTier c"
    and "simulate (remoteStore c) \<longrightarrow> 0 \<le> store_GetUsage RemoteTier c"
    by auto
  with sim new show ?thesis by simp
qed

subsection \<open>Eviction that makes room\<close>

lemma mem_inv_reachable:
  assumes "0 \<le> memCap" and "0 \<le> diskCap"
    and "NewMultiTierCache memCap diskCap env_simulate server gob_len clk = Inr c0"
    and "run ops c0 = Some c"
  shows "mem_inv (memoryStore c)"
proof -
  from assms(1-3) have "cache_inv c0" by (rule cache_inv_New)
  from cache_inv_run [OF this, of ops] assms(4) show ?thesis
    by (simp add: cache_inv_def)
qed

lemma mem_inv_keys_agree: "mem_inv (memoryStore c) \<Longrightarrow> keys_agree c"
  by (auto simp: mem_inv_def keys_agree_def)

lemma mem_inv_size_le:
  assumes "mem_inv s" and "map_of (m_items s) k = Some x"
  shows "Size x \<le> m_usage s"
proof -
  from assms(1) have d: "distinct (map fst (m_items s))" by (simp add: mem_inv_def)
  have "\<forall>(k', e) \<in> set (AList.delete k (m_items s)). 0 \<le> Size e"
    using assms(1) by (auto simp: mem_inv_def AList.delete_eq)
  from sum_sizes_nonneg [OF this] sum_delete [OF d, of "\<lambda>p. Size (snd p)" k] assms
  show ?thesis by (simp add: mem_inv_def)
qed

lemma MemoryStore_Set_room:
  assumes "mem_inv s" and "m_usage s + Size e \<le> m_capacity s"
  shows "fst (MemoryStore_Set s e) = None"
proof (cases "map_of (m_items s) (Key e)")
  case None
  with assms(2) show ?thesis by (simp add: MemoryStore_Set_def Let_def)
next
  case (Some x)
  from Some have "(Key e, x) \<in> set (m_items s)" by (rule map_of_SomeD)
  with assms(1) have "0 \<le> Size x" by (auto simp: mem_inv_def)
  with assms(2) Some show ?thesis by (simp add: MemoryStore_Set_def Let_def)
qed

lemma MemoryStore_Set_too_big:
  assumes "mem_inv s" and "m_capacity s < Size e"
  shows "fst (MemoryStore_Set s e) \<noteq> None"
proof (cases "map_of (m_items s) (Key e)")
  case None
  with assms mem_inv_usage [OF assms(1)] show ?thesis
    by (simp add: MemoryStore_Set_def Let_def)
next
  case (Some x)
  from mem_inv_size_le [OF assms(1) Some] assms(2) Some show ?thesis
    by (simp add: MemoryStore_Set_def Let_def)
qed

lemma evict_body_memoryStore:
  assumes "evict_body MemoryTier x = Inl x' \<or> evict_body MemoryTier x = Inr x'"
  shows "memoryStore x' = memoryStore x \<or>
         (\<exists>k. memoryStore x' = snd (MemoryStore_Delete (memoryStore x) k))"
proof -
  let ?c1 = "x\<lparr>ticks := Suc (ticks x)\<rparr>"
  have d: "memoryStore (snd (store_Delete MemoryTier k ?c1))
             = snd (MemoryStore_Delete (memoryStore x) k)" for k
    by (simp add: store_simps split: prod.splits)
  from assms have
    "x' = x \<or> x' = ?c1 \<or> (\<exists>k. x' = snd (store_Delete MemoryTier k ?c1)) \<or>
     (\<exists>k e. x' = promoteEvictedEntry e (snd (store_Delete MemoryTier k ?c1)))"
    by (auto simp: evict_body_def Let_def time_Now_def split: if_splits sum.splits)
  then show ?thesis
    using d by (auto simp: promoteEvictedEntry_memoryStore)
qed

lemma mem_inv_evict_body:
  assumes "evict_body MemoryTier x = Inl x' \<or> evict_body MemoryTier x = Inr x'"
    and "mem_inv (memoryStore x)"
  shows "mem_inv (memoryStore x')"
  using evict_body_memoryStore [OF assms(1)] assms(2) mem_inv_Delete [of "memoryStore x"]
  by auto

lemma mem_inv_evict:
  assumes ev: "evict MemoryTier req c = Some (b, c')" and inv: "mem_inv (memoryStore c)"
  shows "mem_inv (memoryStore c') \<and>
         (b \<longrightarrow> req \<le> store_GetCapacity MemoryTier c' - store_GetUsage MemoryTier c')"
proof (rule evict_rule [where I = "\<lambda>x. mem_inv (memoryStore x)", OF ev inv])
  fix x x'
  assume "mem_inv (memoryStore x)"
    and "evict_body MemoryTier x = Inl x' \<or> evict_body MemoryTier x = Inr x'"
  then show "mem_inv (memoryStore x')" using mem_inv_evict_body by blast
qed

lemma evict_body_Memory_progress:
  assumes inv: "mem_inv (memoryStore x)"
    and full: "store_GetCapacity MemoryTier x - store_GetUsage MemoryTier x < req"
    and fits: "req \<le> store_GetCapacity MemoryTier x"
    and old: "\<forall>(k, e) \<in> set (m_items (memoryStore x)).
                k \<noteq> '''' \<and> LastAccess e < clock x (ticks x)"
  shows "\<exists>x'. evict_body MemoryTier x = Inr x'"
proof -
  let ?items = "m_items (memoryStore x)"
  let ?entries = "MemoryStore_GetAll (memoryStore x)"
  let ?now = "clock x (ticks x)"
  from full fits have "0 < m_usage (memoryStore x)"
    by (simp add: store_simps MemoryStore_GetCapacity_def MemoryStore_GetUsage_def)
  with inv have ne: "?items \<noteq> []" by (auto simp: mem_inv_def)
  then obtain k0 e0 where "(k0, e0) \<in> set ?items" by (cases ?items) auto
  with old have "e0 \<in> set ?entries" "LastAccess e0 < ?now"
    by (auto simp: MemoryStore_GetAll_def intro: rev_image_eqI)
  then have "\<exists>e\<in>set ?entries. LastAccess e < ?now" by blast
  from Choose_loop_some_older [OF this, of "''''"] obtain e where
    e: "e \<in> set ?entries" "Choose_loop ?entries ?now '''' = Key e" by blast
  then obtain k where ke: "(k, e) \<in> set ?items" by (auto simp: MemoryStore_GetAll_def)
  with inv have "Key e = k" by (auto simp: mem_inv_def)
  with ke old have "Key e \<noteq> ''''" by auto
  with e ne have "LRUPolicy_Choose ?now ?entries \<noteq> ''''"
    by (simp add: LRUPolicy_Choose_def MemoryStore_GetAll_def)
  with ne show ?thesis
    by (simp add: evict_body_def Let_def time_Now_def store_simps MemoryStore_GetAll_def
        split: sum.splits)
qed

lemma evict_body_Memory_older:
  assumes r: "evict_body MemoryTier x = Inr x'" and ka: "keys_agree x"
    and old: "\<forall>(k, e) \<in> set (m_items (memoryStore x)).
                k \<noteq> '''' \<and> (\<forall>n\<ge>ticks x. LastAccess e < clock x n)"
  shows "(\<forall>(k, e) \<in> set (m_items (memoryStore x')).
            k \<noteq> '''' \<and> (\<forall>n\<ge>ticks x'. LastAccess e < clock x' n)) \<and>
         m_capacity (memoryStore x') = m_capacity (memoryStore x)"
proof -
  from evict_body_Memory_Inr [OF r ka] obtain k e where
    ke: "map_of (m_items (memoryStore x)) k = Some e"
        "x' = promoteEvictedEntry e
                (snd (store_Delete MemoryTier k (x\<lparr>ticks := Suc (ticks x)\<rparr>)))"
    by blast
  let ?c1 = "x\<lparr>ticks := Suc (ticks x)\<rparr>"
  let ?c2 = "snd (store_Delete MemoryTier k ?c1)"
  have m: "memoryStore x' =
           (memoryStore x)\<lparr>m_usage := m_usage (memoryStore x) - Size e,
                             m_items := AList.delete k (m_items (memoryStore x))\<rparr>"
    using ke by (simp add: promoteEvictedEntry_memoryStore store_simps MemoryStore_Delete_def)
  from same_env_evict_body [of MemoryTier x x'] r have clk: "clock x' = clock x"
    by (simp add: same_env_def)
  have tk: "ticks x' = Suc (ticks x)"
    using ke(2) promoteEvictedEntry_cases [of e ?c2]
    by (auto simp: store_Set_clock store_Delete_clock)
  have sub: "set (m_items (memoryStore x')) \<subseteq> set (m_items (memoryStore x))"
    by (auto simp: m AList.delete_eq)
  from old sub clk tk m show ?thesis by fastforce
qed

lemma evict_Memory_makes_room:
  assumes "mem_inv (memoryStore c)"
    and "req \<le> store_GetCapacity MemoryTier c"
    and "\<forall>(k, e) \<in> set (m_items (memoryStore c)).
           k \<noteq> '''' \<and> (\<forall>n\<ge>ticks c. LastAccess e < clock c n)"
  shows "\<exists>c'. evict MemoryTier req c = Some (True, c')"
  using assms
proof (induction "length (m_items (memoryStore c))" arbitrary: c rule: less_induct)
  case less
  note unfold = evict.simps [of MemoryTier req c]
  show ?case
  proof (cases "store_GetCapacity MemoryTier c - store_GetUsage MemoryTier c < req")
    case False
    then have "evict MemoryTier req c = Some (True, c)" by (simp add: unfold)
    then show ?thesis by blast
  next
    case True
    have old0: "\<forall>(k, e) \<in> set (m_items (memoryStore c)).
                  k \<noteq> '''' \<and> LastAccess e < clock c (ticks c)"
      using less.prems(3) by fastforce
    from evict_body_Memory_progress [OF less.prems(1) True less.prems(2) old0]
    obtain c' where body: "evict_body MemoryTier c = Inr c'" by blast
    have ka: "keys_agree c" using less.prems(1) by (rule mem_inv_keys_agree)
    from evict_body_Memory_step [OF body ka]
    have shorter: "length (m_items (memoryStore c')) < length (m_items (memoryStore c))"
      by simp
    from mem_inv_evict_body [of c c'] body less.prems(1)
    have inv': "mem_inv (memoryStore c')" by simp
    from evict_body_Memory_older [OF body ka less.prems(3)]
    have old': "\<forall>(k, e) \<in> set (m_items (memoryStore c')).
                  k \<noteq> '''' \<and> (\<forall>n\<ge>ticks c'. LastAccess e < clock c' n)"
      and cap: "m_capacity (memoryStore c') = m_capacity (memoryStore c)"
      by simp_all
    from cap less.prems(2) have fits': "req \<le> store_GetCapacity MemoryTier c'"
      by (simp add: store_simps MemoryStore_GetCapacity_def)
    from less.hyps [OF shorter inv' fits' old'] obtain c'' where
      "evict MemoryTier req c' = Some (True, c'')" by blast
    with True body have "evict MemoryTier req c = Some (True, c'')" by (simp add: unfold)
    then show ?thesis by blast
  qed
qed

subsection \<open>Promotion into the memory store\<close>

lemma store_Set_Memory_room:
  assumes "mem_inv (memoryStore c)"
    and "store_GetUsage MemoryTier c + Size e \<le> store_GetCapacity MemoryTier c"
  shows "store_Get MemoryTier (Key e) (snd (store_Set MemoryTier e c)) = Inr e"
proof -
  from assms(2) have "m_usage (memoryStore c) + Size e \<le> m_capacity (memoryStore c)"
    by (simp add: store_simps MemoryStore_GetUsage_def MemoryStore_GetCapacity_def)
  from MemoryStore_Set_room [OF assms(1) this]
  have "MemoryStore_Get (snd (MemoryStore_Set (memoryStore c) e)) (Key e) = Inr e"
    by (rule MemoryStore_Get_Set_same)
  then show ?thesis by (simp add: store_simps case_prod_beta)
qed

lemma store_Set_Memory_too_big:
  assumes "mem_inv (memoryStore c)"
    and "store_GetCapacity MemoryTier c < Size e"
  shows "snd (store_Set MemoryTier e c) = c"
proof -
  from assms(2) have "m_capacity (memoryStore c) < Size e"
    by (simp add: store_simps MemoryStore_GetCapacity_def)
  from MemoryStore_Set_too_big [OF assms(1) this]
  have "fst (store_Set MemoryTier e c) \<noteq> None"
    by (simp add: store_simps case_prod_beta)
  then show ?thesis by (rule store_Set_failed)
qed

lemma promoteToMemory_room:
  assumes "mem_inv (memoryStore c)"
    and "store_GetUsage MemoryTier c + Size e \<le> store_GetCapacity MemoryTier c"
    and "promoteToMemory e c = Some c'"
  shows "store_Get MemoryTier (Key e) c' = Inr e"
proof -
  from assms(2,3) have "c' = snd (store_Set MemoryTier e c)"
    by (simp add: promoteToMemory_def)
  with store_Set_Memory_room [OF assms(1,2)] show ?thesis by simp
qed

lemma promoteToMemory_evicts:
  assumes inv: "mem_inv (memoryStore c)"
    and full: "store_GetUsage MemoryTier c + Size e > store_GetCapacity MemoryTier c"
    and fits: "Size e \<le> store_GetCapacity MemoryTier c"
    and old: "\<forall>(k, x) \<in> set (m_items (memoryStore c)).
                k \<noteq> [] \<and> (\<forall>n\<ge>ticks c. LastAccess x < clock c n)"
    and res: "promoteToMemory e c = Some c'"
  shows "store_Get MemoryTier (Key e) c' = Inr e"
proof -
  from evict_Memory_makes_room [OF inv fits old] obtain c2 where
    ev: "evict MemoryTier (Size e) c = Some (True, c2)" by blast
  from mem_inv_evict [OF ev inv] have inv2: "mem_inv (memoryStore c2)"
    and room: "store_GetUsage MemoryTier c2 + Size e \<le> store_GetCapacity MemoryTier c2"
    by simp_all
  from full ev res have "c' = snd (store_Set MemoryTier e c2)"
    by (simp add: promoteToMemory_def)
  with store_Set_Memory_room [OF inv2 room] show ?thesis by simp
qed

lemma promoteToMemory_too_big:
  assumes inv: "mem_inv (memoryStore c)"
    and big: "store_GetCapacity MemoryTier c < Size e"
    and miss: "isl (store_Get MemoryTier k c)"
    and res: "promoteToMemory e c = Some c'"
  shows "isl (store_Get MemoryTier k c')"
proof (cases "store_GetUsage MemoryTier c + Size e > store_GetCapacity MemoryTier c")
  case False
  with res have "c' = snd (store_Set MemoryTier e c)" by (simp add: promoteToMemory_def)
  with store_Set_Memory_too_big [OF inv big] miss show ?thesis by simp
next
  case True
  from evict_Memory [OF mem_inv_keys_agree [OF inv], of "Size e"] miss obtain b c2 where
    ev: "evict MemoryTier (Size e) c = Some (b, c2)"
    and env: "same_env c c2"
    and frame: "store_Get MemoryTier k c2 = store_Get MemoryTier k c"
    by blast
  from mem_inv_evict [OF ev inv] have inv2: "mem_inv (memoryStore c2)" by simp
  from env big have big2: "store_GetCapacity MemoryTier c2 < Size e"
    by (simp add: same_env_def store_simps MemoryStore_GetCapacity_def)
  from True ev res have "c' = snd (store_Set MemoryTier e c2)"
    by (simp add: promoteToMemory_def)
  with store_Set_Memory_too_big [OF inv2 big2] frame miss show ?thesis by simp
qed

lemma cache_Get_colder_steps:
  assumes ka: "keys_agree c"
    and miss: "isl (store_Get MemoryTier key c)"
    and hit: "store_Get DiskTier key c = Inr entry \<or>
              (isl (store_Get DiskTier key c) \<and> store_Get RemoteTier key c = Inr entry)"
  shows "\<exists>c'. promoteToMemory (touch (clock c (ticks c)) entry)
                 (c\<lparr>statsHits := statsHits c + 1, ticks := Suc (ticks c)\<rparr>) = Some c' \<and>
           cache_Get key c = Some (Inr (Value entry), c') \<and>
           (let c1 = c\<lparr>statsHits := statsHits c + 1, ticks := Suc (ticks c)\<rparr>;
                e = touch (clock c (ticks c)) entry
            in if store_GetUsage MemoryTier c1 + Size e > store_GetCapacity MemoryTier c1
               then \<exists>evicted c2. evict MemoryTier (Size e) c1 = Some (evicted, c2) \<and>
                                  c' = snd (store_Set MemoryTier e c2)
               else c' = snd (store_Set MemoryTier e c1)) \<and>
           store_Get DiskTier key c' = store_Get DiskTier key c \<and>
           store_Get RemoteTier key c' = store_Get RemoteTier key c"
proof -
  let ?c1 = "c\<lparr>statsHits := statsHits c + 1, ticks := Suc (ticks c)\<rparr>"
  let ?e = "touch (clock c (ticks c)) entry"
  note get = cache_Get_colder_hit [OF miss hit]
  have g1: "store_Get t key ?c1 = store_Get t key c" for t
    by (cases t) (simp_all add: store_simps)
  have ka1: "keys_agree ?c1" using ka by (simp add: keys_agree_def)
  have miss1: "isl (store_Get MemoryTier key ?c1)" using miss by (simp add: g1)
  show ?thesis
  proof (cases "store_GetUsage MemoryTier ?c1 + Size ?e > store_GetCapacity MemoryTier ?c1")
    case False
    then have p: "promoteToMemory ?e ?c1 = Some (snd (store_Set MemoryTier ?e ?c1))"
      by (simp add: promoteToMemory_def)
    with get have "cache_Get key c = Some (Inr (Value entry), snd (store_Set MemoryTier ?e ?c1))"
      by simp
    moreover have "store_Get DiskTier key (snd (store_Set MemoryTier ?e ?c1))
                     = store_Get DiskTier key c"
      "store_Get RemoteTier key (snd (store_Set MemoryTier ?e ?c1))
                     = store_Get RemoteTier key c"
      by (simp_all add: store_Get_Set_other_tier g1)
    ultimately show ?thesis using False p by (simp add: Let_def)
  next
    case True
    from evict_Memory [OF ka1, of "Size ?e"] miss1 obtain evicted c2 where
      ev: "evict MemoryTier (Size ?e) ?c1 = Some (evicted, c2)"
      and frame: "\<And>t. store_Get t key c2 = store_Get t key ?c1"
      by blast
    from True ev have p: "promoteToMemory ?e ?c1 = Some (snd (store_Set MemoryTier ?e c2))"
      by (simp add: promoteToMemory_def)
    with get have "cache_Get key c = Some (Inr (Value entry), snd (store_Set MemoryTier ?e c2))"
      by simp
    moreover have "store_Get DiskTier key (snd (store_Set MemoryTier ?e c2))
                     = store_Get DiskTier key c"
      "store_Get RemoteTier key (snd (store_Set MemoryTier ?e c2))
                     = store_Get RemoteTier key c"
      by (simp_all add: store_Get_Set_other_tier frame g1)
    ultimately show ?thesis using True ev p by (simp add: Let_def)
  qed
qed

text \<open>
  Claim C8: a \<^verbatim>\<open>Get\<close> that misses the memory store and hits the disk store, or misses both
  and hits the remote store, returns the payload whatever becomes of the promotion. The
  state it leaves is the one \<^verbatim>\<open>promoteToMemory\<close> computes from the entry with its access
  time and frequency refreshed: when usage plus size exceeds the capacity of the memory
  store, \<^verbatim>\<open>evict(memoryStore, size)\<close> runs (and returns) first and the entry is then written
  into the memory store, otherwise it is written at once; the result of that write is not
  looked at. The disk store and the remote store still answer for the key as before.

  The promotion succeeds, that is, the memory store afterwards answers for the entry's
  key with the refreshed entry, when the memory store has room for the entry, and also
  when the entry is no larger than the capacity and the eviction finds its victims: no
  item of the memory store has the empty key, and each was last accessed before every
  instant the clock gives from now on. The promotion fails when the entry is larger than
  the capacity of the memory store: the memory store still misses the key, and \<^verbatim>\<open>Get\<close> has
  returned the payload all the same.

  The hypothesis on the memory store is \<open>mem_inv\<close>, which holds after every sequence
  of operations on a fresh cache (\<open>mem_inv_reachable\<close>).
\<close>

theorem promotion_on_colder_hit:
  assumes inv: "mem_inv (memoryStore c)"
    and miss: "isl (store_Get MemoryTier key c)"
    and hit: "store_Get DiskTier key c = Inr entry \<or>
              (isl (store_Get DiskTier key c) \<and> store_Get RemoteTier key c = Inr entry)"
  shows "\<exists>c'. cache_Get key c = Some (Inr (Value entry), c') \<and>
           (let c1 = c\<lparr>statsHits := statsHits c + 1, ticks := Suc (ticks c)\<rparr>;
                e = touch (clock c (ticks c)) entry
            in if store_GetUsage MemoryTier c1 + Size e > store_GetCapacity MemoryTier c1
               then \<exists>evicted c2. evict MemoryTier (Size e) c1 = Some (evicted, c2) \<and>
                                  c' = snd (store_Set MemoryTier e c2)
               else c' = snd (store_Set MemoryTier e c1)) \<and>
           store_Get DiskTier key c' = store_Get DiskTier key c \<and>
           store_Get RemoteTier key c' = store_Get RemoteTier key c \<and>
           (store_GetUsage MemoryTier c + Size entry \<le> store_GetCapacity MemoryTier c \<or>
            Size entry \<le> store_GetCapacity MemoryTier c \<and>
            (\<forall>(k, x) \<in> set (m_items (memoryStore c)).
               k \<noteq> [] \<and> (\<forall>n>ticks c. LastAccess x < clock c n))
            \<longrightarrow> store_Get MemoryTier (Key entry) c' = Inr (touch (clock c (ticks c)) entry)) \<and>
           (store_GetCapacity MemoryTier c < Size entry \<longrightarrow>
              isl (store_Get MemoryTier key c'))"
proof -
  let ?c1 = "c\<lparr>statsHits := statsHits c + 1, ticks := Suc (ticks c)\<rparr>"
  let ?e = "touch (clock c (ticks c)) entry"
  from cache_Get_colder_steps [OF mem_inv_keys_agree [OF inv] miss hit] obtain c' where
    p: "promoteToMemory ?e ?c1 = Some c'"
    and steps: "cache_Get key c = Some (Inr (Value entry), c') \<and>
           (let c1 = ?c1; e = ?e
            in if store_GetUsage MemoryTier c1 + Size e > store_GetCapacity MemoryTier c1
               then \<exists>evicted c2. evict MemoryTier (Size e) c1 = Some (evicted, c2) \<and>
                                  c' = snd (store_Set MemoryTier e c2)
               else c' = snd (store_Set MemoryTier e c1)) \<and>
           store_Get DiskTier key c' = store_Get DiskTier key c \<and>
           store_Get RemoteTier key c' = store_Get RemoteTier key c"
    by blast
  have inv1: "mem_inv (memoryStore ?c1)" using inv by simp
  have e: "Key ?e = Key entry" "Size ?e = Size entry" by (simp_all add: touch_def)
  have u: "store_GetUsage MemoryTier ?c1 = store_GetUsage MemoryTier c"
    "store_GetCapacity MemoryTier ?c1 = store_GetCapacity MemoryTier c"
    by (simp_all add: store_simps)
  have miss1: "isl (store_Get MemoryTier key ?c1)"
    using miss by (simp add: store_simps)
  have promoted: "store_Get MemoryTier (Key entry) c' = Inr ?e"
    if h: "store_GetUsage MemoryTier c + Size entry \<le> store_GetCapacity MemoryTier c \<or>
           Size entry \<le> store_GetCapacity MemoryTier c \<and>
           (\<forall>(k, x) \<in> set (m_items (memoryStore c)).
              k \<noteq> [] \<and> (\<forall>n>ticks c. LastAccess x < clock c n))"
  proof (cases "store_GetUsage MemoryTier c + Size entry \<le> store_GetCapacity MemoryTier c")
    case True
    then have "store_GetUsage MemoryTier ?c1 + Size ?e \<le> store_GetCapacity MemoryTier ?c1"
      by (simp add: u e)
    from promoteToMemory_room [OF inv1 this p] show ?thesis by (simp add: e)
  next
    case False
    with h have fits: "Size ?e \<le> store_GetCapacity MemoryTier ?c1"
      and old: "\<forall>(k, x) \<in> set (m_items (memoryStore c)).
                  k \<noteq> [] \<and> (\<forall>n>ticks c. LastAccess x < clock c n)"
      by (simp_all add: u e)
    from old have old1: "\<forall>(k, x) \<in> set (m_items (memoryStore ?c1)).
                  k \<noteq> [] \<and> (\<forall>n\<ge>ticks ?c1. LastAccess x < clock ?c1 n)"
      by (auto simp: Suc_le_eq)
    from False have full: "store_GetUsage MemoryTier ?c1 + Size ?e > store_GetCapacity MemoryTier ?c1"
      by (simp add: u e)
    from promoteToMemory_evicts [OF inv1 full fits old1 p] show ?thesis by (simp add: e)
  qed
  have swallowed: "isl (store_Get MemoryTier key c')"
    if "store_GetCapacity MemoryTier c < Size entry"
  proof -
    from that have "store_GetCapacity MemoryTier ?c1 < Size ?e" by (simp add: u e)
    from promoteToMemory_too_big [OF inv1 this miss1 p] show ?thesis .
  qed
  from steps promoted swallowed show ?thesis by blast
qed

text \<open>
  Claim C8 at three caches: the repository's promotion test (capacity 20, room for the 12
  bytes: the entry is in the memory store afterwards); the cache of the eviction test
  read at \<^verbatim>\<open>k1\<close>, which is on disk while the memory store holds 16 of its 20 bytes (the
  eviction makes room and \<^verbatim>\<open>k1\<close> is in the memory store afterwards); and a memory store of
  capacity 5 (the promotion of the 12 bytes fails, the payload is returned).
\<close>

theorem promotion_on_colder_hit_witness:
  "(mem_inv (memoryStore promotion_test_cache) \<and>
    isl (store_Get MemoryTier ''promote'' promotion_test_cache) \<and>
    store_Get DiskTier ''promote'' promotion_test_cache =
      Inr \<lparr>Key = ''promote'', Value = ''promotevalue'', Size = 12, LastAccess = 0,
           Frequency = 0\<rparr> \<and>
    store_GetUsage MemoryTier promotion_test_cache + 12
      \<le> store_GetCapacity MemoryTier promotion_test_cache \<and>
    (\<exists>c'. cache_Get ''promote'' promotion_test_cache = Some (Inr ''promotevalue'', c') \<and>
          store_Get MemoryTier ''promote'' c' =
            Inr \<lparr>Key = ''promote'', Value = ''promotevalue'', Size = 12, LastAccess = 1,
                 Frequency = 1\<rparr> \<and>
          store_Get DiskTier ''promote'' c' =
            Inr \<lparr>Key = ''promote'', Value = ''promotevalue'', Size = 12, LastAccess = 0,
                 Frequency = 0\<rparr>)) \<and>
   (mem_inv (memoryStore eviction_test_cache) \<and>
    map fst (m_items (memoryStore eviction_test_cache)) = [''k3'', ''k4''] \<and>
    store_GetUsage MemoryTier eviction_test_cache = 16 \<and>
    store_GetCapacity MemoryTier eviction_test_cache = 20 \<and>
    store_Get DiskTier ''k1'' eviction_test_cache =
      Inr \<lparr>Key = ''k1'', Value = ''value1'', Size = 6, LastAccess = 1, Frequency = 1\<rparr> \<and>
    (\<exists>c'. cache_Get ''k1'' eviction_test_cache = Some (Inr ''value1'', c') \<and>
          store_Get MemoryTier ''k1'' c' =
            Inr \<lparr>Key = ''k1'', Value = ''value1'', Size = 6, LastAccess = 7, Frequency = 2\<rparr> \<and>
          store_Get DiskTier ''k1'' c' =
            Inr \<lparr>Key = ''k1'', Value = ''value1'', Size = 6, LastAccess = 1,
                 Frequency = 1\<rparr>)) \<and>
   (mem_inv (memoryStore promotion_cache) \<and>
    isl (store_Get MemoryTier ''promote'' promotion_cache) \<and>
    store_Get DiskTier ''promote'' promotion_cache =
      Inr \<lparr>Key = ''promote'', Value = ''promotevalue'', Size = 12, LastAccess = 0,
           Frequency = 0\<rparr> \<and>
    store_GetCapacity MemoryTier promotion_cache < 12 \<and>
    (\<exists>c'. cache_Get ''promote'' promotion_cache = Some (Inr ''promotevalue'', c') \<and>
          isl (store_Get MemoryTier ''promote'' c') \<and>
          store_Get DiskTier ''promote'' c' =
            Inr \<lparr>Key = ''promote'', Value = ''promotevalue'', Size = 12, LastAccess = 0,
                 Frequency = 0\<rparr>))"
proof (intro conjI)
  let ?e = "\<lparr>Key = ''promote'', Value = ''promotevalue'', Size = 12, LastAccess = 0,
            Frequency = (0::int)\<rparr>"
  let ?k1 = "\<lparr>Key = ''k1'', Value = ''value1'', Size = 6, LastAccess = 1,
             Frequency = (1::int)\<rparr>"
  have inv: "mem_inv (memoryStore promotion_test_cache)"
    by (simp add: mem_inv_def promotion_test_cache_def eval_defs)
  have miss: "isl (store_Get MemoryTier ''promote'' promotion_test_cache)"
    by (simp add: promotion_test_cache_def eval_defs)
  have hit: "store_Get DiskTier ''promote'' promotion_test_cache = Inr ?e"
    by (simp add: promotion_test_cache_def eval_defs)
  have room: "store_GetUsage MemoryTier promotion_test_cache + 12
                \<le> store_GetCapacity MemoryTier promotion_test_cache"
    "clock promotion_test_cache (ticks promotion_test_cache) = 1"
    by (simp_all add: promotion_test_cache_def eval_defs)
  show "mem_inv (memoryStore promotion_test_cache)" by (rule inv)
  show "isl (store_Get MemoryTier ''promote'' promotion_test_cache)" by (rule miss)
  show "store_Get DiskTier ''promote'' promotion_test_cache = Inr ?e" by (rule hit)
  show "store_GetUsage MemoryTier promotion_test_cache + 12
          \<le> store_GetCapacity MemoryTier promotion_test_cache" by (rule room)
  from promotion_on_colder_hit [OF inv miss disjI1, OF hit] hit room
  show "\<exists>c'. cache_Get ''promote'' promotion_test_cache = Some (Inr ''promotevalue'', c') \<and>
          store_Get MemoryTier ''promote'' c' =
            Inr \<lparr>Key = ''promote'', Value = ''promotevalue'', Size = 12, LastAccess = 1,
                 Frequency = 1\<rparr> \<and>
          store_Get DiskTier ''promote'' c' = Inr ?e"
    by (auto simp: touch_def)
  have st: "eviction_test_cache =
      \<lparr>memoryStore =
         \<lparr>m_items = [(''k3'', \<lparr>Key = ''k3'', Value = ''value3'', Size = 6, LastAccess = 3,
                                Frequency = 1\<rparr>),
                     (''k4'', \<lparr>Key = ''k4'', Value = ''longvalue4'', Size = 10, LastAccess = 4,
                                Frequency = 1\<rparr>)],
          m_capacity = 20, m_usage = 16\<rparr>,
       diskStore =
         \<lparr>d_files = [(''k1'', \<lparr>f_entry = ?k1, f_size = 72\<rparr>),
                     (''k2'', \<lparr>f_entry = \<lparr>Key = ''k2'', Value = ''value2'', Size = 6,
                                           LastAccess = 2, Frequency = 1\<rparr>, f_size = 72\<rparr>)],
          d_capacity = 40, d_usage = 12, d_readonly = False, d_gob_len = example_gob_len\<rparr>,
       remoteStore = \<lparr>simulate = True, client = no_redis, simulateMap = []\<rparr>,
       statsHits = 0, statsMisses = 0, clock = example_clock, ticks = 6\<rparr>"
    by (simp add: eviction_test_cache_def eval_defs)
  have inv2: "mem_inv (memoryStore eviction_test_cache)"
    by (simp add: st mem_inv_def)
  have miss2: "isl (store_Get MemoryTier ''k1'' eviction_test_cache)"
    by (simp add: st store_simps MemoryStore_Get_def)
  have hit2: "store_Get DiskTier ''k1'' eviction_test_cache = Inr ?k1"
    by (simp add: st store_simps DiskStore_Get_def os_Open_def)
  have u2: "store_GetUsage MemoryTier eviction_test_cache = 16"
    "store_GetCapacity MemoryTier eviction_test_cache = 20"
    "clock eviction_test_cache (ticks eviction_test_cache) = 7"
    by (simp_all add: st store_simps MemoryStore_GetUsage_def MemoryStore_GetCapacity_def
        example_clock_def)
  have old2: "\<forall>(k, x) \<in> set (m_items (memoryStore eviction_test_cache)).
                k \<noteq> [] \<and> (\<forall>n>ticks eviction_test_cache.
                               LastAccess x < clock eviction_test_cache n)"
    by (simp add: st example_clock_def)
  show "mem_inv (memoryStore eviction_test_cache)" by (rule inv2)
  show "map fst (m_items (memoryStore eviction_test_cache)) = [''k3'', ''k4'']"
    by (simp add: st)
  show "store_GetUsage MemoryTier eviction_test_cache = 16" by (rule u2)
  show "store_GetCapacity MemoryTier eviction_test_cache = 20" by (rule u2)
  show "store_Get DiskTier ''k1'' eviction_test_cache = Inr ?k1" by (rule hit2)
  from promotion_on_colder_hit [OF inv2 miss2 disjI1, OF hit2] hit2 u2 old2
  show "\<exists>c'. cache_Get ''k1'' eviction_test_cache = Some (Inr ''value1'', c') \<and>
          store_Get MemoryTier ''k1'' c' =
            Inr \<lparr>Key = ''k1'', Value = ''value1'', Size = 6, LastAccess = 7, Frequency = 2\<rparr> \<and>
          store_Get DiskTier ''k1'' c' = Inr ?k1"
    by (auto simp: touch_def)
  have inv3: "mem_inv (memoryStore promotion_cache)"
    by (simp add: mem_inv_def promotion_cache_def eval_defs)
  have miss3: "isl (store_Get MemoryTier ''promote'' promotion_cache)"
    by (simp add: promotion_cache_def eval_defs)
  have hit3: "store_Get DiskTier ''promote'' promotion_cache = Inr ?e"
    by (simp add: promotion_cache_def eval_defs)
  have big3: "store_GetCapacity MemoryTier promotion_cache < 12"
    by (simp add: promotion_cache_def eval_defs)
  show "mem_inv (memoryStore promotion_cache)" by (rule inv3)
  show "isl (store_Get MemoryTier ''promote'' promotion_cache)" by (rule miss3)
  show "store_Get DiskTier ''promote'' promotion_cache = Inr ?e" by (rule hit3)
  show "store_GetCapacity MemoryTier promotion_cache < 12" by (rule big3)
  from promotion_on_colder_hit [OF inv3 miss3 disjI1, OF hit3] hit3 big3
  show "\<exists>c'. cache_Get ''promote'' promotion_cache = Some (Inr ''promotevalue'', c') \<and>
          isl (store_Get MemoryTier ''promote'' c') \<and>
          store_Get DiskTier ''promote'' c' = Inr ?e"
    by auto
qed

end
